theory Spec2Isabelle
  imports
    Main
    "HOL-Library.Char_ord"
    "HOL-Library.List_Lexorder"
    "HOL-Library.Product_Lexorder"
begin

section \<open>The campaign worker (workers/campaignWorker.js)\<close>

text \<open>
  The worker keeps its dispatches in a relational table read and written through
  Prisma. The table is modelled as the list of its rows; timestamps are
  milliseconds since the epoch (what a JavaScript \<open>Date\<close> holds), so
  \<open>getCurrentBrazilTime()\<close>, which returns \<open>DateTime.now()\<close> as a \<open>Date\<close>, is a
  reading of the clock. Identifiers are natural numbers. Strings are lists of
  code units below 256.
\<close>

subsection \<open>Data model\<close>

datatype dispatch_status = Pending | Processing | Sent | Failed

record dispatch =
  dispatch_id :: nat
  campaignId :: nat
  sessionName :: string
  contact :: string
  messageOrder :: int
  message :: string
  status :: dispatch_status
  scheduledAt :: "int option"
  error :: "string option"
  createdAt :: int
  updatedAt :: int

type_synonym store = "dispatch list"

text \<open>The row of \<open>segmentContact\<close> with the three columns the worker selects.\<close>

record segmentContact =
  phone :: string
  name :: "string option"
  email :: "string option"
  empresa :: "string option"

text \<open>A JavaScript \<open>Error\<close>: its \<open>name\<close> and its \<open>message\<close>.\<close>

record js_error =
  error_name :: string
  error_message :: string

subsection \<open>Store primitives\<close>

text \<open>
  \<open>updateMany({where, data})\<close> rewrites every row the filter accepts and
  returns how many there were.
\<close>

definition updateMany ::
  "(dispatch \<Rightarrow> bool) \<Rightarrow> (dispatch \<Rightarrow> dispatch) \<Rightarrow> store \<Rightarrow> nat \<times> store" where
  "updateMany wh data st =
     (length (filter wh st), map (\<lambda>r. if wh r then data r else r) st)"

text \<open>
  \<open>findMany({where, orderBy})\<close>: the accepted rows, sorted by the key
  (rows with equal keys keep their order in the table).
\<close>

definition findMany ::
  "(dispatch \<Rightarrow> bool) \<Rightarrow> (dispatch \<Rightarrow> 'k::linorder) \<Rightarrow> store \<Rightarrow> dispatch list" where
  "findMany wh orderBy st = sort_key orderBy (filter wh st)"

text \<open>\<open>findFirst({where, orderBy})\<close>: the first row of that result, or null.\<close>

definition findFirst ::
  "(dispatch \<Rightarrow> bool) \<Rightarrow> (dispatch \<Rightarrow> 'k::linorder) \<Rightarrow> store \<Rightarrow> dispatch option" where
  "findFirst wh orderBy st =
     (case findMany wh orderBy st of [] \<Rightarrow> None | r # _ \<Rightarrow> Some r)"

text \<open>
  The filter \<open>status: 'pending', OR: [{scheduledAt: null}, {scheduledAt: {lte: now}}]\<close>
  that the claim and the orchestrator share.
\<close>

definition ready :: "int \<Rightarrow> dispatch \<Rightarrow> bool" where
  "ready now r \<longleftrightarrow>
     status r = Pending \<and> (case scheduledAt r of None \<Rightarrow> True | Some t \<Rightarrow> t \<le> now)"

subsection \<open>reviveStuckProcessing\<close>

text \<open>
  The store call may throw; \<open>fault\<close> is the error it throws, if any. The
  \<open>try\<close>/\<open>catch\<close> around the body logs the error and returns, so the result
  is \<open>Inr\<close> of the table in either case; \<open>Inl\<close> would be an error that leaves
  the function. \<open>now\<close> is \<open>Date.now()\<close> and \<open>ttl\<close> is \<open>PROCESSING_TTL_MS\<close>.
\<close>

definition stuck :: "int \<Rightarrow> dispatch \<Rightarrow> bool" where
  "stuck cutoff r \<longleftrightarrow> status r = Processing \<and> updatedAt r < cutoff"

definition reviveStuckProcessing ::
  "js_error option \<Rightarrow> int \<Rightarrow> int \<Rightarrow> store \<Rightarrow> js_error + store" where
  "reviveStuckProcessing fault ttl now st =
     (let cutoff = now - ttl in
      case fault of
        Some err \<Rightarrow> Inr st
      | None \<Rightarrow> Inr (snd (updateMany (stuck cutoff) (\<lambda>r. r\<lparr>status := Pending\<rparr>) st)))"

subsection \<open>claimNextContactBatch\<close>

record claim =
  claim_contact :: string
  claim_sessionName :: string
  claim_contactData :: "segmentContact option"
  claim_batch :: "dispatch list"

text \<open>The \<open>orderBy\<close> of the first query: contact, then messageOrder, then createdAt.\<close>

definition claim_order :: "dispatch \<Rightarrow> string \<times> int \<times> int" where
  "claim_order r = (contact r, messageOrder r, createdAt r)"

definition in_group :: "nat \<Rightarrow> dispatch \<Rightarrow> dispatch \<Rightarrow> bool" where
  "in_group cid first r \<longleftrightarrow>
     campaignId r = cid \<and> contact r = contact first \<and> sessionName r = sessionName first"

text \<open>
  The transaction reads the clock three times: \<open>now\<close> before the transaction,
  \<open>claimTime\<close> after the first query and the stamp written to \<open>updatedAt\<close>. The
  model takes the first reading and the milliseconds \<open>d1\<close> and \<open>d2\<close> that pass
  before the second and the third.

  \<open>claim_locked\<close> is the transaction from the conditional update on, for the
  row \<open>first\<close> that the first query returned.
\<close>

definition claim_locked ::
  "segmentContact list \<Rightarrow> nat \<Rightarrow> int \<Rightarrow> nat \<Rightarrow> nat \<Rightarrow> dispatch \<Rightarrow> store
     \<Rightarrow> claim option \<times> store" where
  "claim_locked contacts cid now d1 d2 first st =
     (let claimTime = now + int d1;
          upd = updateMany (\<lambda>r. in_group cid first r \<and> ready now r)
                  (\<lambda>r. r\<lparr>status := Processing, updatedAt := claimTime + int d2\<rparr>) st
      in if fst upd = 0 then (None, snd upd)
         else
           let batch = findMany
                 (\<lambda>r. in_group cid first r \<and> status r = Processing \<and> claimTime \<le> updatedAt r)
                 messageOrder (snd upd);
               contactData = find (\<lambda>c. phone c = contact first) contacts
           in (Some \<lparr>claim_contact = contact first, claim_sessionName = sessionName first,
                     claim_contactData = contactData, claim_batch = batch\<rparr>,
               snd upd))"

definition claimNextContactBatch ::
  "segmentContact list \<Rightarrow> nat \<Rightarrow> int \<Rightarrow> nat \<Rightarrow> nat \<Rightarrow> store \<Rightarrow> claim option \<times> store" where
  "claimNextContactBatch contacts cid now d1 d2 st =
     (case findFirst (\<lambda>r. campaignId r = cid \<and> ready now r) claim_order st of
        None \<Rightarrow> (None, st)
      | Some first \<Rightarrow> claim_locked contacts cid now d1 d2 first st)"

text \<open>
  The row that the conditional update leaves for a row of the table, and the
  batch that the last query reads from the updated table.
\<close>

definition lock_row :: "nat \<Rightarrow> int \<Rightarrow> int \<Rightarrow> dispatch \<Rightarrow> dispatch \<Rightarrow> dispatch" where
  "lock_row cid now stamp first r =
     (if in_group cid first r \<and> ready now r
      then r\<lparr>status := Processing, updatedAt := stamp\<rparr> else r)"

definition batch_of :: "nat \<Rightarrow> int \<Rightarrow> nat \<Rightarrow> nat \<Rightarrow> dispatch \<Rightarrow> store \<Rightarrow> dispatch list" where
  "batch_of cid now d1 d2 first st =
     findMany (\<lambda>r. in_group cid first r \<and> status r = Processing \<and> now + int d1 \<le> updatedAt r)
       messageOrder (map (lock_row cid now (now + int d1 + int d2) first) st)"

text \<open>
  The invariant of the data model: within a group (campaignId, contact,
  sessionName) no two rows share a messageOrder.
\<close>

definition messageOrder_unique :: "store \<Rightarrow> bool" where
  "messageOrder_unique st \<longleftrightarrow>
     (\<forall>f \<in> set st. distinct (map messageOrder (filter (in_group (campaignId f) f) st)))"

subsection \<open>renderTemplate\<close>

text \<open>
  The regular expression \<open>/{{\s*(\w+)\s*}}/g\<close>. The classes \<open>\s\<close> and \<open>\w\<close> and the
  brace are disjoint, so the greedy match at a position is the only match there:
  two braces, all the white space, all the word characters (at least one), all
  the white space, two braces.
\<close>

definition js_space :: "char \<Rightarrow> bool" where
  "js_space c \<longleftrightarrow> of_char c \<in> {9, 10, 11, 12, 13, 32, 160 :: nat}"

definition js_word :: "char \<Rightarrow> bool" where
  "js_word c \<longleftrightarrow>
     (let n = of_char c :: nat in
      (48 \<le> n \<and> n \<le> 57) \<or> (65 \<le> n \<and> n \<le> 90) \<or> n = 95 \<or> (97 \<le> n \<and> n \<le> 122))"

definition match_placeholder :: "string \<Rightarrow> (string \<times> string) option" where
  "match_placeholder s =
     (case s of
        c1 # c2 # s1 \<Rightarrow>
          if c1 = CHR ''{'' \<and> c2 = CHR ''{'' then
            (let s2 = dropWhile js_space s1;
                 key = takeWhile js_word s2;
                 s3 = dropWhile js_space (dropWhile js_word s2)
             in if key = [] then None
                else (case s3 of
                        c3 # c4 # rest \<Rightarrow>
                          if c3 = CHR ''}'' \<and> c4 = CHR ''}'' then Some (key, rest) else None
                      | _ \<Rightarrow> None))
          else None
      | _ \<Rightarrow> None)"

lemma match_placeholder_shorter:
  "match_placeholder s = Some (key, rest) \<Longrightarrow> length rest < length s"
proof -
  have dw: "\<And>P (xs :: string). length (dropWhile P xs) \<le> length xs"
    by (simp add: length_dropWhile_le)
  assume m: "match_placeholder s = Some (key, rest)"
  then obtain s1 where s: "s = CHR ''{'' # CHR ''{'' # s1"
    and r: "dropWhile js_space (dropWhile js_word (dropWhile js_space s1))
              = CHR ''}'' # CHR ''}'' # rest"
    by (auto simp: match_placeholder_def Let_def split: list.splits if_splits)
  have "length rest < length (dropWhile js_space (dropWhile js_word (dropWhile js_space s1)))"
    by (simp add: r)
  also have "\<dots> \<le> length (dropWhile js_word (dropWhile js_space s1))" by (rule dw)
  also have "\<dots> \<le> length (dropWhile js_space s1)" by (rule dw)
  also have "\<dots> \<le> length s1" by (rule dw)
  finally show ?thesis by (simp add: s)
qed

text \<open>
  \<open>text.replace(re, fn)\<close> with the global flag: scan from the left; at a match,
  emit what \<open>fn\<close> returns for the captured key and go on after the match (the
  replacement is not scanned again); otherwise keep the character and move on.
\<close>

function replace_placeholders :: "(string \<Rightarrow> string) \<Rightarrow> string \<Rightarrow> string" where
  "replace_placeholders fn [] = []"
| "replace_placeholders fn (c # s) =
     (case match_placeholder (c # s) of
        Some (key, rest) \<Rightarrow> fn key @ replace_placeholders fn rest
      | None \<Rightarrow> c # replace_placeholders fn s)"
  by pat_completeness auto
termination
  by (relation "measure (\<lambda>(fn, s). length s)") (auto dest: match_placeholder_shorter)

text \<open>
  The object \<open>{nome: contactData?.name, email: contactData?.email, empresa:
  contactData?.empresa}\<close> as the list of its own properties; \<open>None\<close> is a value
  that is null or undefined.
\<close>

definition template_data :: "segmentContact option \<Rightarrow> (string \<times> string option) list" where
  "template_data contactData =
     [(''nome'', case contactData of None \<Rightarrow> None | Some c \<Rightarrow> name c),
      (''email'', case contactData of None \<Rightarrow> None | Some c \<Rightarrow> email c),
      (''empresa'', case contactData of None \<Rightarrow> None | Some c \<Rightarrow> empresa c)]"

text \<open>
  \<open>contactData[key]\<close> reads a property of an object literal, so for a key that
  is not an own property it finds what the object inherits from
  \<open>Object.prototype\<close>: \<open>({nome: 'Ana'})['constructor']\<close> is the function
  \<open>Object\<close>, not \<open>undefined\<close>. \<open>replace\<close> converts what the callback returns to
  a string. \<open>object_prototype_text key\<close> is that string for the members of
  \<open>Object.prototype\<close> (Node.js prints a built-in function as
  \<open>function f() { [native code] }\<close>), and \<open>None\<close> for every other key.
\<close>

definition object_prototype_text :: "string \<Rightarrow> string option" where
  "object_prototype_text key =
     (if key = ''constructor'' then Some ''function Object() { [native code] }''
      else if key = ''__proto__'' then Some ''[object Object]''
      else if key \<in> set [''__defineGetter__'', ''__defineSetter__'', ''hasOwnProperty'',
                ''__lookupGetter__'', ''__lookupSetter__'', ''isPrototypeOf'',
                ''propertyIsEnumerable'', ''toString'', ''valueOf'', ''toLocaleString'']
      then Some (''function '' @ key @ ''() { [native code] }'')
      else None)"

text \<open>The callback \<open>(_, key) => contactData[key] ?? ''\<close>.\<close>

definition lookup_or_empty :: "(string \<times> string option) list \<Rightarrow> string \<Rightarrow> string" where
  "lookup_or_empty obj key =
     (case map_of obj key of
        Some (Some v) \<Rightarrow> v
      | Some None \<Rightarrow> []
      | None \<Rightarrow> (case object_prototype_text key of Some t \<Rightarrow> t | None \<Rightarrow> []))"

definition renderTemplate :: "string option \<Rightarrow> (string \<times> string option) list \<Rightarrow> string" where
  "renderTemplate txt contactData =
     (case txt of
        None \<Rightarrow> []
      | Some t \<Rightarrow> if t = [] then [] else replace_placeholders (lookup_or_empty contactData) t)"

subsection \<open>Payloads and gateway requests\<close>

record payload =
  payload_type :: string
  payload_text :: "string option"
  imageUrl :: "string option"
  videoUrl :: "string option"
  audioUrl :: "string option"
  documentUrl :: "string option"

text \<open>
  \<open>json_parse raw\<close> stands for \<open>JSON.parse(raw)\<close>: \<open>Some obj\<close> when it returns an
  object, \<open>None\<close> when it throws or returns anything else. The fields of the
  object are strings or absent; an absent \<open>type\<close> is the empty string, which is
  falsy as the absent one is.
\<close>

definition parsePayload :: "(string \<Rightarrow> payload option) \<Rightarrow> string \<Rightarrow> payload" where
  "parsePayload json_parse raw =
     (let fallback = \<lparr>payload_type = ''text'', payload_text = Some raw, imageUrl = None,
                       videoUrl = None, audioUrl = None, documentUrl = None\<rparr>
      in case json_parse raw of
           Some obj \<Rightarrow> if payload_type obj \<noteq> [] then obj else fallback
         | None \<Rightarrow> fallback)"

definition filenameFromUrl :: "string option \<Rightarrow> string \<Rightarrow> string" where
  "filenameFromUrl u fallback =
     (case u of
        None \<Rightarrow> fallback
      | Some s \<Rightarrow>
          let last = rev (takeWhile (\<lambda>c. c \<noteq> CHR ''/'') (rev (takeWhile (\<lambda>c. c \<noteq> CHR ''?'') s)))
          in if last = [] then fallback else last)"

text \<open>\<open>String(contact).replace(/[^\d]/g, '')\<close>.\<close>

definition cleanNumber :: "string \<Rightarrow> string" where
  "cleanNumber c = filter (\<lambda>ch. 48 \<le> (of_char ch :: nat) \<and> (of_char ch :: nat) \<le> 57) c"

text \<open>
  A request to the gateway: the session of the URL, then the fields of the body
  in the order of the source.
\<close>

datatype request =
    SendImage string string "string option" string string
  | SendVideo string string "string option" string string
  | SendPtt string string "string option"
  | SendDocument string string "string option" string string
  | SendMessage string string string

definition or_empty :: "string option \<Rightarrow> string" where
  "or_empty t = (case t of None \<Rightarrow> [] | Some s \<Rightarrow> s)"

definition build_request :: "string \<Rightarrow> segmentContact option \<Rightarrow> dispatch \<Rightarrow> payload \<Rightarrow> request" where
  "build_request num contactData d p =
     (if payload_type p = ''image'' then
        SendImage (sessionName d) num (imageUrl p)
          (filenameFromUrl (imageUrl p) ''imagem.jpg'') (or_empty (payload_text p))
      else if payload_type p = ''video'' then
        SendVideo (sessionName d) num (videoUrl p)
          (filenameFromUrl (videoUrl p) ''video.mp4'') (or_empty (payload_text p))
      else if payload_type p = ''audio'' then
        SendPtt (sessionName d) num (audioUrl p)
      else if payload_type p = ''document'' then
        SendDocument (sessionName d) num (documentUrl p)
          (filenameFromUrl (documentUrl p) ''documento'') (or_empty (payload_text p))
      else
        SendMessage (sessionName d) num
          (renderTemplate (payload_text p) (template_data contactData)))"

text \<open>
  What \<open>axios.post\<close> gives back: it rejects with an error, or it resolves with a
  response, of which the worker reads whether \<open>data.status\<close> is truthy and
  \<open>data.message\<close>.
\<close>

datatype gw_result = Rejected js_error | Response bool "string option"

subsection \<open>Recording the outcome of a send\<close>

text \<open>
  \<open>prisma.campaignDispatch.update({where: {id}, data})\<close> throws when the store
  fails (\<open>fault\<close>) and when no row has the id.
\<close>

definition update_by_id ::
  "js_error option \<Rightarrow> nat \<Rightarrow> (dispatch \<Rightarrow> dispatch) \<Rightarrow> store \<Rightarrow> js_error + store" where
  "update_by_id fault i data st =
     (case fault of
        Some err \<Rightarrow> Inl err
      | None \<Rightarrow>
          if i \<in> set (map dispatch_id st)
          then Inr (map (\<lambda>r. if dispatch_id r = i then data r else r) st)
          else Inl \<lparr>error_name = ''PrismaClientKnownRequestError'',
                    error_message = ''Record to update not found.''\<rparr>)"

text \<open>\<open>String(err.message || err)\<close>: an error with an empty message prints as its name.\<close>

definition error_text :: "js_error \<Rightarrow> string" where
  "error_text err = (if error_message err \<noteq> [] then error_message err else error_name err)"

text \<open>The \<open>catch\<close> of a send: mark the row failed; an error of that update is logged only.\<close>

definition mark_failed ::
  "(nat \<Rightarrow> dispatch_status \<Rightarrow> js_error option) \<Rightarrow> nat \<Rightarrow> js_error \<Rightarrow> store \<Rightarrow> store" where
  "mark_failed faults i err st =
     (case update_by_id (faults i Failed) i
             (\<lambda>r. r\<lparr>status := Failed, error := Some (error_text err)\<rparr>) st of
        Inl e \<Rightarrow> st
      | Inr st' \<Rightarrow> st')"

definition record_outcome ::
  "(nat \<Rightarrow> dispatch_status \<Rightarrow> js_error option) \<Rightarrow> nat \<Rightarrow> gw_result \<Rightarrow> store \<Rightarrow> store" where
  "record_outcome faults i res st =
     (case res of
        Rejected err \<Rightarrow> mark_failed faults i err st
      | Response ok msg \<Rightarrow>
          if ok then
            (case update_by_id (faults i Sent) i (\<lambda>r. r\<lparr>status := Sent, error := None\<rparr>) st of
               Inl err \<Rightarrow> mark_failed faults i err st
             | Inr st' \<Rightarrow> st')
          else
            mark_failed faults i
              \<lparr>error_name = ''Error'',
               error_message = (if or_empty msg \<noteq> [] then or_empty msg else ''Falha no envio'')\<rparr>
              st)"

subsection \<open>processCampaign\<close>

text \<open>The row of \<open>campaing\<close> (the name of the Prisma model) with the selected columns.\<close>

record campaing =
  delay :: "int option"
  contactDelay :: "int option"
  campaign_status :: string

text \<open>
  What the loop does to the outside is kept as a trace: the claim transactions
  it starts, the requests it posts (with the id of the dispatch) and its sleeps.
\<close>

datatype event = Claim nat | Post nat request | Sleep int

record world =
  dispatches :: store
  segmentContacts :: "segmentContact list"
  trace :: "event list"

definition emit :: "event \<Rightarrow> world \<Rightarrow> world" where
  "emit ev w = w\<lparr>trace := trace w @ [ev]\<rparr>"

text \<open>
  What one pass of the loop meets outside the dispatch table: the result of
  \<open>prisma.campaing.findUnique\<close> (an error, null or the row), the error that ends
  the claim transaction if it fails, the clock readings of the claim, the
  gateway and the errors of the single-row updates.
\<close>

record env =
  env_campaign :: "js_error + campaing option"
  env_claim_fault :: "js_error option"
  env_now :: int
  env_d1 :: nat
  env_d2 :: nat
  env_gateway :: "nat \<Rightarrow> request \<Rightarrow> gw_result"
  env_update_fault :: "nat \<Rightarrow> dispatch_status \<Rightarrow> js_error option"

text \<open>The request that the body of the \<open>for\<close> loop posts for a dispatch.\<close>

definition request_of :: "(string \<Rightarrow> payload option) \<Rightarrow> claim \<Rightarrow> dispatch \<Rightarrow> request" where
  "request_of json_parse cl d =
     build_request (cleanNumber (claim_contact cl)) (claim_contactData cl) d
       (parsePayload json_parse (message d))"

text \<open>The body of \<open>for (const dispatch of batch)\<close>.\<close>

definition send_one ::
  "(string \<Rightarrow> payload option) \<Rightarrow> env \<Rightarrow> claim \<Rightarrow> int \<Rightarrow> dispatch \<Rightarrow> world \<Rightarrow> world" where
  "send_one json_parse e cl delayMs d w =
     (let req = request_of json_parse cl d;
          w1 = emit (Post (dispatch_id d) req) w;
          w2 = w1\<lparr>dispatches :=
                 record_outcome (env_update_fault e) (dispatch_id d)
                   (env_gateway e (dispatch_id d) req) (dispatches w1)\<rparr>
      in if delayMs > 0 then emit (Sleep delayMs) w2 else w2)"

fun send_batch ::
  "(string \<Rightarrow> payload option) \<Rightarrow> env \<Rightarrow> claim \<Rightarrow> int \<Rightarrow> dispatch list \<Rightarrow> world \<Rightarrow> world" where
  "send_batch json_parse e cl delayMs [] w = w"
| "send_batch json_parse e cl delayMs (d # ds) w =
     send_batch json_parse e cl delayMs ds (send_one json_parse e cl delayMs d w)"

datatype step = Return | Continue

text \<open>
  \<open>Number(campaign?.delay ?? 30000)\<close> and \<open>Number(campaign?.contactDelay ?? 0)\<close>;
  \<open>None\<close> is a column that is null or undefined.
\<close>

definition delayMs :: "campaing \<Rightarrow> int" where
  "delayMs campaign = (case delay campaign of None \<Rightarrow> 30000 | Some v \<Rightarrow> v)"

definition contactDelayMs :: "campaing \<Rightarrow> int" where
  "contactDelayMs campaign = (case contactDelay campaign of None \<Rightarrow> 0 | Some v \<Rightarrow> v)"

text \<open>One pass of \<open>while (true)\<close>, up to its \<open>return\<close> or the end of the body.\<close>

definition loop_iteration ::
  "(string \<Rightarrow> payload option) \<Rightarrow> nat \<Rightarrow> env \<Rightarrow> world \<Rightarrow> step \<times> world" where
  "loop_iteration json_parse cid e w =
     (case env_campaign e of
        Inl loopErr \<Rightarrow> (Continue, emit (Sleep 5000) w)
      | Inr None \<Rightarrow> (Return, w)
      | Inr (Some campaign) \<Rightarrow>
          if campaign_status campaign = ''paused'' then (Continue, emit (Sleep 10000) w)
          else
            let w1 = emit (Claim cid) w
            in case env_claim_fault e of
                 Some loopErr \<Rightarrow> (Continue, emit (Sleep 5000) w1)
               | None \<Rightarrow>
                   (case claimNextContactBatch (segmentContacts w1) cid (env_now e) (env_d1 e)
                           (env_d2 e) (dispatches w1) of
                      (None, st') \<Rightarrow> (Return, w1\<lparr>dispatches := st'\<rparr>)
                    | (Some cl, st') \<Rightarrow>
                        if claim_batch cl = [] then (Return, w1\<lparr>dispatches := st'\<rparr>)
                        else
                          let w2 = send_batch json_parse e cl (delayMs campaign) (claim_batch cl)
                                     (w1\<lparr>dispatches := st'\<rparr>)
                          in (Continue,
                              if contactDelayMs campaign > 0
                              then emit (Sleep (contactDelayMs campaign)) w2
                              else w2)))"

text \<open>
  The loop runs for as long as it is given passes to make: one \<open>env\<close> for each.
  \<open>Returned\<close> says that \<open>processCampaign\<close> has returned, \<open>Running\<close> that it is
  still in its loop after the last pass given.
\<close>

datatype run = Returned | Running

fun campaign_loop ::
  "(string \<Rightarrow> payload option) \<Rightarrow> nat \<Rightarrow> env list \<Rightarrow> world \<Rightarrow> run \<times> world" where
  "campaign_loop json_parse cid [] w = (Running, w)"
| "campaign_loop json_parse cid (e # es) w =
     (case loop_iteration json_parse cid e w of
        (Return, w') \<Rightarrow> (Returned, w')
      | (Continue, w') \<Rightarrow> campaign_loop json_parse cid es w')"

text \<open>\<open>initial\<close> is the result of the query before the loop.\<close>

definition processCampaign ::
  "(string \<Rightarrow> payload option) \<Rightarrow> nat \<Rightarrow> js_error + campaing option \<Rightarrow> env list \<Rightarrow> world
     \<Rightarrow> run \<times> world" where
  "processCampaign json_parse cid initial es w =
     (case initial of
        Inl err \<Rightarrow> (Returned, w)
      | Inr None \<Rightarrow> (Returned, w)
      | Inr (Some campaign) \<Rightarrow> campaign_loop json_parse cid es w)"

subsection \<open>orchestrate\<close>

text \<open>
  \<open>runningCampaigns\<close> is a \<open>Set\<close>: its members in the order they were added.
\<close>

definition set_add :: "nat \<Rightarrow> nat list \<Rightarrow> nat list" where
  "set_add c running = (if c \<in> set running then running else running @ [c])"

definition set_delete :: "nat \<Rightarrow> nat list \<Rightarrow> nat list" where
  "set_delete c running = filter (\<lambda>x. x \<noteq> c) running"

text \<open>
  The query of the tick, \<open>select: {campaignId}, distinct: ['campaignId']\<close>: the
  campaigns of the ready rows, each once.
\<close>

fun distinct_ids :: "nat list \<Rightarrow> nat list" where
  "distinct_ids [] = []"
| "distinct_ids (c # cs) = c # distinct_ids (filter (\<lambda>x. x \<noteq> c) cs)"

definition availableCampaigns :: "int \<Rightarrow> store \<Rightarrow> nat list" where
  "availableCampaigns now st = distinct_ids (map campaignId (filter (ready now) st))"

text \<open>
  The \<open>for\<close> loop over the candidates, with \<open>MAX_CAMPAIGN_CONCURRENCY\<close> as
  \<open>limit\<close>: the running set it leaves and the campaigns it started, in order.
  The loops it starts are detached, so none of them completes before the
  \<open>for\<close> loop is over.
\<close>

fun launch :: "int \<Rightarrow> nat list \<Rightarrow> nat list \<Rightarrow> nat list \<times> nat list" where
  "launch limit [] running = (running, [])"
| "launch limit (c # cs) running =
     (if c \<in> set running then launch limit cs running
      else if limit > 0 \<and> int (length running) \<ge> limit then (running, [])
      else case launch limit cs (set_add c running) of
             (running', started) \<Rightarrow> (running', c # started))"

text \<open>
  One tick up to the scheduling of the next: the table after the revival, the
  running set and the campaigns started. \<open>revive_fault\<close> and \<open>find_fault\<close> are the
  errors of the two store calls, \<open>now\<close> the clock at the revival and \<open>d\<close> the
  milliseconds until the tick reads it again.
\<close>

definition orchestrate ::
  "js_error option \<Rightarrow> js_error option \<Rightarrow> int \<Rightarrow> int \<Rightarrow> int \<Rightarrow> nat \<Rightarrow> store \<Rightarrow> nat list
     \<Rightarrow> store \<times> nat list \<times> nat list" where
  "orchestrate revive_fault find_fault ttl limit now d st running =
     (let st1 = (case reviveStuckProcessing revive_fault ttl now st of
                   Inl err \<Rightarrow> st | Inr st' \<Rightarrow> st')
      in case find_fault of
           Some err \<Rightarrow> (st1, running, [])
         | None \<Rightarrow>
             (case launch limit (availableCampaigns (now + int d) st1) running of
                (running', started) \<Rightarrow> (st1, running', started)))"

text \<open>
  The handlers on the promise of a started loop:
  \<open>.catch(log).finally(() => runningCampaigns.delete(campaignId))\<close>. \<open>rejection\<close> is
  the error the promise rejects with, if it does.
\<close>

definition settled :: "js_error option \<Rightarrow> nat \<Rightarrow> nat list \<Rightarrow> nat list" where
  "settled rejection cid running = set_delete cid running"

text \<open>
  A started loop together with its handlers: once \<open>processCampaign\<close> has
  returned, its promise is fulfilled and the handlers have run.
\<close>

definition campaign_task ::
  "(string \<Rightarrow> payload option) \<Rightarrow> nat \<Rightarrow> js_error + campaing option \<Rightarrow> env list \<Rightarrow> world
     \<Rightarrow> nat list \<Rightarrow> nat list \<times> world" where
  "campaign_task json_parse cid initial es w running =
     (case processCampaign json_parse cid initial es w of
        (Returned, w') \<Rightarrow> (settled None cid running, w')
      | (Running, w') \<Rightarrow> (running, w'))"

subsection \<open>Reading a trace and a row\<close>

text \<open>
  What a row shows once the outcome of its send is recorded: sent with no error
  for a response with a truthy status; failed with the message of the response
  (or \<open>Falha no envio\<close>) for any other response; failed with the text of the
  error when the post was rejected.
\<close>

definition recorded :: "gw_result \<Rightarrow> dispatch \<Rightarrow> bool" where
  "recorded res r =
     (case res of
        Rejected err \<Rightarrow> status r = Failed \<and> error r = Some (error_text err)
      | Response ok msg \<Rightarrow>
          if ok then status r = Sent \<and> error r = None
          else status r = Failed \<and>
               error r = Some (if or_empty msg \<noteq> [] then or_empty msg else ''Falha no envio''))"

text \<open>
  The same when the single-row updates may throw. \<open>before\<close> is the row as the claim
  left it. After an accepted post the row is sent, unless the update to sent
  throws: then the \<open>catch\<close> marks it failed with the text of that error. After
  any other answer the row is failed as above. Whenever the update to failed
  throws, the row stays as it was.
\<close>

definition accepted :: "gw_result \<Rightarrow> bool" where
  "accepted res = (case res of Rejected err \<Rightarrow> False | Response ok msg \<Rightarrow> ok)"

definition outcome_shown ::
  "(nat \<Rightarrow> dispatch_status \<Rightarrow> js_error option) \<Rightarrow> nat \<Rightarrow> gw_result \<Rightarrow> dispatch \<Rightarrow> dispatch
     \<Rightarrow> bool" where
  "outcome_shown faults i res before after =
     (if accepted res then
        (case faults i Sent of
           None \<Rightarrow> recorded res after
         | Some err \<Rightarrow>
             (case faults i Failed of
                None \<Rightarrow> status after = Failed \<and> error after = Some (error_text err)
              | Some e \<Rightarrow> after = before))
      else
        (case faults i Failed of
           None \<Rightarrow> recorded res after
         | Some e \<Rightarrow> after = before))"

text \<open>The ids of the dispatches posted, in the order of the posts.\<close>

fun posted :: "event list \<Rightarrow> nat list" where
  "posted [] = []"
| "posted (Post i req # evs) = i # posted evs"
| "posted (Claim c # evs) = posted evs"
| "posted (Sleep ms # evs) = posted evs"

subsection \<open>Example rows\<close>

definition ex_row ::
  "nat \<Rightarrow> nat \<Rightarrow> string \<Rightarrow> int \<Rightarrow> dispatch_status \<Rightarrow> int option \<Rightarrow> int \<Rightarrow> dispatch" where
  "ex_row i cid c ord s sched upd =
     \<lparr>dispatch_id = i, campaignId = cid, sessionName = ''s1'', contact = c,
      messageOrder = ord, message = ''oi'', status = s, scheduledAt = sched,
      error = None, createdAt = 0, updatedAt = upd\<rparr>"

definition ex_table :: store where
  "ex_table =
     [ex_row 1 1 ''5512'' 1 Pending None 0, ex_row 2 1 ''5511'' 2 Pending None 0,
      ex_row 3 1 ''5511'' 1 Pending (Some 50) 0, ex_row 4 1 ''5511'' 3 Pending (Some 500) 0]"

text \<open>
  An active campaign without delays, a store without faults and a gateway that
  accepts dispatch 3 and refuses every other with the message \<open>recusado\<close>.
\<close>

definition ex_env :: env where
  "ex_env = \<lparr>env_campaign = Inr (Some \<lparr>delay = None, contactDelay = None,
                                        campaign_status = ''active''\<rparr>),
             env_claim_fault = None, env_now = 100, env_d1 = 1, env_d2 = 2,
             env_gateway = (\<lambda>i req. Response (i = 3) (Some ''recusado'')),
             env_update_fault = (\<lambda>i s. None)\<rparr>"

text \<open>One contact with a message that is ready at once and one scheduled for time 5.\<close>

definition ex_race :: store where
  "ex_race = [ex_row 1 7 ''5511'' 1 Pending None 0, ex_row 2 7 ''5511'' 2 Pending (Some 5) 0]"

text \<open>Two campaigns with ready work.\<close>

definition ex_two :: store where
  "ex_two = [ex_row 1 1 ''5511'' 1 Pending None 0, ex_row 2 2 ''5512'' 1 Pending None 0,
             ex_row 3 1 ''5511'' 2 Pending None 0]"

text \<open>Rows of \<open>campaing\<close>, passes of the loop and worlds for the examples.\<close>

definition ex_active :: campaing where
  "ex_active = \<lparr>delay = None, contactDelay = None, campaign_status = ''active''\<rparr>"

definition ex_paused :: env where
  "ex_paused = ex_env\<lparr>env_campaign := Inr (Some \<lparr>delay = None, contactDelay = None,
                                                 campaign_status = ''paused''\<rparr>)\<rparr>"

definition ex_finished :: env where
  "ex_finished = ex_env\<lparr>env_campaign := Inr (Some \<lparr>delay = Some 0, contactDelay = None,
                                                 campaign_status = ''finished''\<rparr>)\<rparr>"

definition ex_world :: world where
  "ex_world = \<lparr>dispatches = [ex_row 3 1 ''5511'' 1 Pending None 0], segmentContacts = [], trace = []\<rparr>"

definition ex_done :: world where
  "ex_done = \<lparr>dispatches = [ex_row 3 1 ''5511'' 1 Sent None 103], segmentContacts = [], trace = []\<rparr>"

definition ex_pair :: world where
  "ex_pair = \<lparr>dispatches = [ex_row 3 1 ''5511'' 1 Pending None 0,
                             ex_row 4 1 ''5511'' 2 Pending None 0],
              segmentContacts = [], trace = []\<rparr>"

text \<open>As \<open>ex_env\<close>, but the update of dispatch 3 to sent throws.\<close>

definition ex_faulty :: env where
  "ex_faulty = ex_env\<lparr>env_update_fault :=
     (\<lambda>i s. if i = 3 \<and> s = Sent
             then Some \<lparr>error_name = ''PrismaClientKnownRequestError'',
                        error_message = ''timeout''\<rparr>
             else None)\<rparr>"

definition ex_ana :: segmentContact where
  "ex_ana = \<lparr>phone = ''5511'', name = Some ''Ana'', email = Some ''a@x.com'', empresa = None\<rparr>"

section \<open>Properties\<close>

lemma updateMany_none: "\<forall>r \<in> set st. \<not> wh r \<Longrightarrow> updateMany wh data st = (0, st)"
  by (induction st) (auto simp: updateMany_def)

lemma findFirst_None_iff: "findFirst wh k st = None \<longleftrightarrow> (\<forall>r \<in> set st. \<not> wh r)"
proof -
  have "findFirst wh k st = None \<longleftrightarrow> sort_key k (filter wh st) = []"
    by (simp add: findFirst_def findMany_def split: list.splits)
  also have "\<dots> \<longleftrightarrow> filter wh st = []"
    by (metis length_0_conv length_sort)
  also have "\<dots> \<longleftrightarrow> (\<forall>r \<in> set st. \<not> wh r)"
    by (simp add: filter_empty_conv)
  finally show ?thesis .
qed

subsection \<open>The claim transaction\<close>


lemma findFirst_Some:
  assumes "findFirst wh k st = Some f"
  shows "f \<in> set st \<and> wh f \<and> (\<forall>r \<in> set st. wh r \<longrightarrow> k f \<le> k r)"
proof -
  from assms obtain rest where s: "sort_key k (filter wh st) = f # rest"
    by (auto simp: findFirst_def findMany_def split: list.splits)
  have "set (f # rest) = set (filter wh st)"
    using s set_sort [of k "filter wh st"] by simp
  then have mem: "f \<in> set st \<and> wh f" and all: "\<forall>r \<in> set st. wh r \<longrightarrow> r \<in> set (f # rest)"
    by auto
  have "sorted (map k (f # rest))"
    using s sorted_sort_key [of k "filter wh st"] by simp
  then have "\<forall>r \<in> set (f # rest). k f \<le> k r" by auto
  with mem all show ?thesis by blast
qed

lemma findFirst_exists:
  "r \<in> set st \<Longrightarrow> wh r \<Longrightarrow> \<exists>f. findFirst wh k st = Some f"
  using findFirst_None_iff [of wh k st] by (cases "findFirst wh k st") auto

lemma updateMany_count_0: "fst (updateMany wh data st) = 0 \<longleftrightarrow> (\<forall>r \<in> set st. \<not> wh r)"
  by (simp add: updateMany_def filter_empty_conv)

lemma distinct_map_sort_key:
  "distinct (map f (sort_key f xs)) = distinct (map f xs)"
  by (induction xs) (auto simp: distinct_insort_key)

lemma claim_locked_Some:
  assumes "first \<in> set st" "campaignId first = cid" "ready now first"
  shows "claim_locked contacts cid now d1 d2 first st =
     (Some \<lparr>claim_contact = contact first, claim_sessionName = sessionName first,
            claim_contactData = find (\<lambda>c. phone c = contact first) contacts,
            claim_batch = batch_of cid now d1 d2 first st\<rparr>,
      map (lock_row cid now (now + int d1 + int d2) first) st)"
proof -
  have "in_group cid first first \<and> ready now first"
    using assms by (simp add: in_group_def)
  with assms(1) have "fst (updateMany (\<lambda>r. in_group cid first r \<and> ready now r)
      (\<lambda>r. r\<lparr>status := Processing, updatedAt := now + int d1 + int d2\<rparr>) st) \<noteq> 0"
    unfolding updateMany_count_0 by blast
  then show ?thesis
    by (simp add: claim_locked_def Let_def batch_of_def)
       (simp add: updateMany_def lock_row_def [abs_def])
qed

lemma in_group_lock_row [simp]: "in_group cid f (lock_row cid' now stamp f' r) = in_group cid f r"
  by (simp add: lock_row_def in_group_def)

lemma messageOrder_lock_row [simp]: "messageOrder (lock_row cid now stamp f r) = messageOrder r"
  by (simp add: lock_row_def)

lemma batch_sorted: "sorted (map messageOrder (batch_of cid now d1 d2 first st))"
  by (simp add: batch_of_def findMany_def)

lemma batch_rows:
  "b \<in> set (batch_of cid now d1 d2 first st) \<Longrightarrow> in_group cid first b \<and> status b = Processing"
  by (auto simp: batch_of_def findMany_def)

lemma batch_has_claimed:
  assumes "r \<in> set st" "in_group cid first r" "ready now r"
  shows "r\<lparr>status := Processing, updatedAt := now + int d1 + int d2\<rparr>
           \<in> set (batch_of cid now d1 d2 first st)"
proof -
  have "lock_row cid now (now + int d1 + int d2) first r
          = r\<lparr>status := Processing, updatedAt := now + int d1 + int d2\<rparr>"
    using assms by (simp add: lock_row_def)
  then have "r\<lparr>status := Processing, updatedAt := now + int d1 + int d2\<rparr>
               \<in> set (map (lock_row cid now (now + int d1 + int d2) first) st)"
    using assms(1) by force
  moreover have "in_group cid first (r\<lparr>status := Processing, updatedAt := now + int d1 + int d2\<rparr>)"
    using assms(2) by (simp add: in_group_def)
  ultimately show ?thesis by (simp add: batch_of_def findMany_def)
qed

lemma batch_strict:
  assumes "distinct (map messageOrder (filter (in_group cid first) st))"
  shows "sorted_wrt (<) (map messageOrder (batch_of cid now d1 d2 first st))"
proof -
  let ?L = "lock_row cid now (now + int d1 + int d2) first"
  let ?sel = "\<lambda>r. in_group cid first r \<and> status r = Processing \<and> now + int d1 \<le> updatedAt r"
  have "filter ?sel (map ?L st) = map ?L (filter (?sel \<circ> ?L) st)"
    by (simp add: filter_map)
  also have "filter (?sel \<circ> ?L) st = filter (?sel \<circ> ?L) (filter (in_group cid first) st)"
    by (simp add: comp_def conj_commute cong: conj_cong)
  finally have "map messageOrder (filter ?sel (map ?L st))
      = map messageOrder (filter (?sel \<circ> ?L) (filter (in_group cid first) st))"
    by (simp add: comp_def)
  moreover have "distinct (map messageOrder (filter (?sel \<circ> ?L) (filter (in_group cid first) st)))"
    using assms by (rule distinct_map_filter)
  ultimately have "distinct (map messageOrder (filter ?sel (map ?L st)))" by simp
  then have "distinct (map messageOrder (batch_of cid now d1 d2 first st))"
    by (simp add: batch_of_def findMany_def distinct_map_sort_key)
  with batch_sorted show ?thesis by (simp add: strict_sorted_iff)
qed

lemma posted_append: "posted (xs @ ys) = posted xs @ posted ys"
  by (induction xs rule: posted.induct) simp_all

lemma trace_send_one:
  "trace (send_one jp e cl dl d w) =
     trace w @ Post (dispatch_id d) (request_of jp cl d) # (if dl > 0 then [Sleep dl] else [])"
  by (simp add: send_one_def Let_def emit_def)

lemma trace_send_batch:
  "trace (send_batch jp e cl dl ds w) =
     trace w @ concat (map (\<lambda>d. Post (dispatch_id d) (request_of jp cl d)
                               # (if dl > 0 then [Sleep dl] else [])) ds)"
  by (induction ds arbitrary: w) (simp_all add: trace_send_one)

lemma posted_send_batch:
  "posted (trace (send_batch jp e cl dl ds w)) = posted (trace w) @ map dispatch_id ds"
  by (induction ds arbitrary: w) (simp_all add: trace_send_one posted_append)

lemma in_group_same:
  "in_group cid fA fB \<Longrightarrow> in_group cid fB r = in_group cid fA r"
  by (auto simp: in_group_def)

lemma lock_row_not_ready:
  assumes "in_group cid fA r" "ready nowB r \<longrightarrow> ready nowA r"
  shows "\<not> ready nowB (lock_row cid nowA stamp fA r)"
  using assms by (auto simp: lock_row_def ready_def)

lemma no_ready_after_lock:
  assumes "\<forall>r \<in> set st. in_group cid fA r \<and> ready nowB r \<longrightarrow> ready nowA r"
  shows "\<forall>r' \<in> set (map (lock_row cid nowA stamp fA) st).
           \<not> (in_group cid fA r' \<and> ready nowB r')"
proof
  fix r' assume "r' \<in> set (map (lock_row cid nowA stamp fA) st)"
  then obtain r where r: "r \<in> set st" and r': "r' = lock_row cid nowA stamp fA r" by auto
  show "\<not> (in_group cid fA r' \<and> ready nowB r')"
  proof
    assume a: "in_group cid fA r' \<and> ready nowB r'"
    then have g: "in_group cid fA r" using r' by simp
    with assms r have "ready nowB r \<longrightarrow> ready nowA r" by blast
    from lock_row_not_ready [OF g this] a r' show False by simp
  qed
qed

subsection \<open>The orchestrator\<close>

lemma set_distinct_ids [simp]: "set (distinct_ids xs) = set xs"
  by (induction xs rule: distinct_ids.induct) auto

lemma distinct_distinct_ids [simp]: "distinct (distinct_ids xs)"
  by (induction xs rule: distinct_ids.induct) auto

lemma availableCampaigns_iff:
  "c \<in> set (availableCampaigns now st) \<longleftrightarrow> (\<exists>r \<in> set st. ready now r \<and> campaignId r = c)"
  by (auto simp: availableCampaigns_def)

lemma ready_later: "ready now r \<Longrightarrow> now \<le> now' \<Longrightarrow> ready now' r"
  by (auto simp: ready_def split: option.splits)

lemma revive_keeps_ready:
  assumes "reviveStuckProcessing fault ttl t st = Inr st'" "r \<in> set st" "ready now r"
  shows "r \<in> set st'"
proof (cases fault)
  case None
  have "\<not> stuck (t - ttl) r" using assms(3) by (simp add: stuck_def ready_def)
  then have "(\<lambda>r. if stuck (t - ttl) r then r\<lparr>status := Pending\<rparr> else r) r = r" by simp
  then have "r \<in> set (map (\<lambda>r. if stuck (t - ttl) r then r\<lparr>status := Pending\<rparr> else r) st)"
    using assms(2) by force
  with None assms(1) show ?thesis
    by (simp add: reviveStuckProcessing_def updateMany_def)
next
  case (Some e)
  with assms show ?thesis by (simp add: reviveStuckProcessing_def)
qed

lemma still_available:
  assumes "c \<in> set (availableCampaigns now st)" "now \<le> now'"
    and "reviveStuckProcessing fault ttl t st = Inr st'"
  shows "c \<in> set (availableCampaigns now' st')"
proof -
  from assms(1) obtain r where r: "r \<in> set st" "ready now r" "campaignId r = c"
    by (auto simp: availableCampaigns_iff)
  from revive_keeps_ready [OF assms(3) r(1,2)] ready_later [OF r(2) assms(2)] r(3)
  show ?thesis by (auto simp: availableCampaigns_iff)
qed

lemma launch_running: "fst (launch limit cs running) = running @ snd (launch limit cs running)"
  by (induction limit cs running rule: launch.induct)
     (auto simp: set_add_def split: prod.splits)

lemma launch_started:
  "c \<in> set (snd (launch limit cs running)) \<Longrightarrow> c \<in> set cs \<and> c \<notin> set running"
  by (induction limit cs running rule: launch.induct)
     (auto simp: set_add_def split: prod.splits if_splits)

lemma launch_distinct:
  "distinct running \<Longrightarrow> distinct (fst (launch limit cs running))"
  by (induction limit cs running rule: launch.induct)
     (auto simp: set_add_def split: prod.splits if_splits)

lemma launch_bound:
  "0 < limit \<Longrightarrow> int (length running) \<le> limit
     \<Longrightarrow> int (length (fst (launch limit cs running))) \<le> limit"
  by (induction limit cs running rule: launch.induct)
     (auto simp: set_add_def split: prod.splits if_splits)

lemma launch_full:
  "0 < limit \<Longrightarrow> int (length running) \<ge> limit \<Longrightarrow> snd (launch limit cs running) = []"
  by (induction limit cs running rule: launch.induct)
     (auto simp: set_add_def split: prod.splits if_splits)

lemma launch_pair: "launch limit cs running = (x1, x2) \<Longrightarrow> x1 = running @ x2"
  using launch_running [of limit cs running] by simp

lemma launch_skipped:
  "c \<in> set cs \<Longrightarrow> c \<notin> set (fst (launch limit cs running))
     \<Longrightarrow> 0 < limit \<and> int (length (fst (launch limit cs running))) \<ge> limit"
proof (induction limit cs running rule: launch.induct)
  case (1 limit running)
  then show ?case by simp
next
  case (2 limit a cs running)
  show ?case
  proof (cases "a \<in> set running")
    case True
    have "c \<in> set cs"
    proof (rule ccontr)
      assume "c \<notin> set cs"
      with "2.prems"(1) have "c = a" by simp
      with True have "c \<in> set (running @ snd (launch limit (a # cs) running))" by simp
      with "2.prems"(2) launch_running [of limit "a # cs" running] show False by simp
    qed
    with True "2.IH"(1) "2.prems"(2) show ?thesis by simp
  next
    case False
    show ?thesis
    proof (cases "limit > 0 \<and> int (length running) \<ge> limit")
      case True
      with False show ?thesis by simp
    next
      case full: False
      obtain x1 x2 where l: "launch limit cs (set_add a running) = (x1, x2)"
        by (cases "launch limit cs (set_add a running)") auto
      from launch_pair [OF l] False have x1: "x1 = running @ a # x2"
        by (simp add: set_add_def)
      from False full l have res: "fst (launch limit (a # cs) running) = x1" by auto
      with "2.prems"(2) x1 have "c \<noteq> a" by auto
      with "2.prems"(1) have "c \<in> set cs" by simp
      moreover have "c \<notin> set (fst (launch limit cs (set_add a running)))"
        using "2.prems"(2) res l by simp
      ultimately have "0 < limit \<and> limit \<le> int (length (fst (launch limit cs (set_add a running))))"
        using "2.IH"(2) False full by blast
      with res l show ?thesis by simp
    qed
  qed
qed

lemma launch_one: "launch 1 (c # cs) [] = ([c], [c])"
proof -
  have s: "snd (launch 1 cs [c]) = []" by (rule launch_full) simp_all
  have "fst (launch 1 cs [c]) = [c] @ snd (launch 1 cs [c])" by (rule launch_running)
  with s have "launch 1 cs [c] = ([c], [])" by (cases "launch 1 cs [c]") simp
  then show ?thesis by (simp add: set_add_def)
qed

subsection \<open>The campaign loop\<close>

lemma campaign_loop_append:
  "campaign_loop jp cid (es1 @ es2) w =
     (case campaign_loop jp cid es1 w of
        (Returned, w') \<Rightarrow> (Returned, w')
      | (Running, w') \<Rightarrow> campaign_loop jp cid es2 w')"
  by (induction es1 arbitrary: w) (auto split: prod.splits step.splits)

lemma loop_iteration_paused:
  "env_campaign e = Inr (Some c) \<Longrightarrow> campaign_status c = ''paused''
     \<Longrightarrow> loop_iteration jp cid e w = (Continue, emit (Sleep 10000) w)"
  by (simp add: loop_iteration_def)

lemma claim_None_unchanged:
  assumes "claimNextContactBatch contacts cid now d1 d2 st = (None, st')"
  shows "st' = st"
proof (cases "findFirst (\<lambda>r. campaignId r = cid \<and> ready now r) claim_order st")
  case None
  with assms show ?thesis by (simp add: claimNextContactBatch_def)
next
  case (Some f)
  from findFirst_Some [OF Some] claim_locked_Some [of f st cid now contacts d1 d2] assms Some
  show ?thesis by (simp add: claimNextContactBatch_def)
qed

lemma loop_iteration_null:
  assumes "env_campaign e = Inr (Some c)" "campaign_status c \<noteq> ''paused''"
    "env_claim_fault e = None"
    "fst (claimNextContactBatch (segmentContacts w) cid (env_now e) (env_d1 e) (env_d2 e)
           (dispatches w)) = None"
  shows "loop_iteration jp cid e w = (Return, emit (Claim cid) w)"
proof -
  obtain st' where c: "claimNextContactBatch (segmentContacts w) cid (env_now e) (env_d1 e)
      (env_d2 e) (dispatches w) = (None, st')"
    using assms(4) by (cases "claimNextContactBatch (segmentContacts w) cid (env_now e)
      (env_d1 e) (env_d2 e) (dispatches w)") simp
  from claim_None_unchanged [OF c] have "st' = dispatches w" .
  with c assms(1-3) show ?thesis
    by (simp add: loop_iteration_def Let_def emit_def)
qed

lemma loop_iteration_sends:
  assumes "env_campaign e = Inr (Some c)" "campaign_status c \<noteq> ''paused''"
    "env_claim_fault e = None"
    "claimNextContactBatch (segmentContacts w) cid (env_now e) (env_d1 e) (env_d2 e)
           (dispatches w) = (Some cl, st')" "claim_batch cl \<noteq> []"
  shows "loop_iteration jp cid e w =
     (Continue,
      let w2 = send_batch jp e cl (delayMs c) (claim_batch cl)
                 ((emit (Claim cid) w)\<lparr>dispatches := st'\<rparr>)
      in if contactDelayMs c > 0 then emit (Sleep (contactDelayMs c)) w2 else w2)"
  using assms by (simp add: loop_iteration_def Let_def emit_def)

lemma trace_loop_iteration_sends:
  assumes "env_campaign e = Inr (Some c)" "campaign_status c \<noteq> ''paused''"
    "env_claim_fault e = None"
    "claimNextContactBatch (segmentContacts w) cid (env_now e) (env_d1 e) (env_d2 e)
           (dispatches w) = (Some cl, st')" "claim_batch cl \<noteq> []"
  shows "trace (snd (loop_iteration jp cid e w)) =
     trace w @ Claim cid #
       concat (map (\<lambda>d. Post (dispatch_id d) (request_of jp cl d)
                          # (if delayMs c > 0 then [Sleep (delayMs c)] else []))
                 (claim_batch cl))
       @ (if contactDelayMs c > 0 then [Sleep (contactDelayMs c)] else [])"
  by (simp add: loop_iteration_sends [OF assms] Let_def emit_def trace_send_batch)

lemma loop_iteration_claims:
  assumes "env_campaign e = Inr (Some c)" "campaign_status c \<noteq> ''paused''"
  shows "\<exists>rest. trace (snd (loop_iteration jp cid e w)) = trace w @ Claim cid # rest"
proof (cases "env_claim_fault e")
  case (Some err)
  with assms show ?thesis by (simp add: loop_iteration_def Let_def emit_def)
next
  case None
  obtain r st' where c: "claimNextContactBatch (segmentContacts w) cid (env_now e) (env_d1 e)
      (env_d2 e) (dispatches w) = (r, st')"
    by (cases "claimNextContactBatch (segmentContacts w) cid (env_now e)
      (env_d1 e) (env_d2 e) (dispatches w)") simp
  show ?thesis
  proof (cases "\<exists>cl. r = Some cl \<and> claim_batch cl \<noteq> []")
    case True
    then obtain cl where "r = Some cl" "claim_batch cl \<noteq> []" by blast
    with c trace_loop_iteration_sends [OF assms None, of w cid cl st' jp]
    show ?thesis by simp
  next
    case False
    with c assms None show ?thesis
      by (cases r) (auto simp: loop_iteration_def Let_def emit_def)
  qed
qed

lemma paused_loop:
  assumes "\<forall>e \<in> set es. \<exists>c. env_campaign e = Inr (Some c) \<and> campaign_status c = ''paused''"
  shows "campaign_loop jp cid es w =
           (Running, w\<lparr>trace := trace w @ replicate (length es) (Sleep 10000)\<rparr>)"
  using assms
proof (induction es arbitrary: w)
  case Nil
  then show ?case by simp
next
  case (Cons e es)
  then obtain c where c: "env_campaign e = Inr (Some c)" "campaign_status c = ''paused''"
    by auto
  have "campaign_loop jp cid (e # es) w = campaign_loop jp cid es (emit (Sleep 10000) w)"
    by (simp add: loop_iteration_paused [OF c])
  also have "\<dots> = (Running, (emit (Sleep 10000) w)
      \<lparr>trace := trace (emit (Sleep 10000) w) @ replicate (length es) (Sleep 10000)\<rparr>)"
    using Cons by simp
  finally show ?case by (simp add: emit_def replicate_app_Cons_same)
qed

lemma returned_task:
  "processCampaign jp cid initial es w = (Returned, w2)
     \<Longrightarrow> campaign_task jp cid initial es w running = (set_delete cid running, w2)"
  by (simp add: campaign_task_def settled_def)

lemma launch_first_free:
  assumes "c \<notin> set running" "limit \<le> 0 \<or> int (length running) < limit"
  shows "c \<in> set (snd (launch limit (c # cs) running))"
  using assms by (cases "launch limit cs (set_add c running)") auto

subsection \<open>Sending a batch\<close>

lemma failed_branch:
  assumes "i \<in> set (map dispatch_id st)"
  shows "\<exists>g. (\<forall>r. dispatch_id (g r) = dispatch_id r \<and>
                  (case faults i Failed of
                     None \<Rightarrow> status (g r) = Failed \<and> error (g r) = Some (error_text err)
                   | Some e \<Rightarrow> g r = r)) \<and>
              mark_failed faults i err st = map (\<lambda>r. if dispatch_id r = i then g r else r) st"
proof (cases "faults i Failed")
  case None
  let ?g = "\<lambda>r. r\<lparr>status := Failed, error := Some (error_text err)\<rparr>"
  have A: "\<forall>r. dispatch_id (?g r) = dispatch_id r \<and>
                  (case faults i Failed of
                     None \<Rightarrow> status (?g r) = Failed \<and> error (?g r) = Some (error_text err)
                   | Some e \<Rightarrow> ?g r = r)"
    by (simp add: None)
  have B: "mark_failed faults i err st = map (\<lambda>r. if dispatch_id r = i then ?g r else r) st"
    using None assms by (simp add: mark_failed_def update_by_id_def)
  show ?thesis by (rule exI [of _ ?g], rule conjI [OF A B])
next
  case (Some e)
  let ?g = "\<lambda>r::dispatch. r"
  have A: "\<forall>r. dispatch_id (?g r) = dispatch_id r \<and>
                  (case faults i Failed of
                     None \<Rightarrow> status (?g r) = Failed \<and> error (?g r) = Some (error_text err)
                   | Some e \<Rightarrow> ?g r = r)"
    by (simp add: Some)
  have B: "mark_failed faults i err st = map (\<lambda>r. if dispatch_id r = i then ?g r else r) st"
    using Some by (simp add: mark_failed_def update_by_id_def)
  show ?thesis by (rule exI [of _ ?g], rule conjI [OF A B])
qed

lemma record_outcome_shown:
  assumes "i \<in> set (map dispatch_id st)"
  shows "\<exists>g. (\<forall>r. dispatch_id (g r) = dispatch_id r \<and> outcome_shown faults i res r (g r)) \<and>
              record_outcome faults i res st
                = map (\<lambda>r. if dispatch_id r = i then g r else r) st"
proof -
  consider (sent) msg where "res = Response True msg" "faults i Sent = None"
    | (thrown) msg err where "res = Response True msg" "faults i Sent = Some err"
    | (refused) msg where "res = Response False msg"
    | (rejected) err where "res = Rejected err"
    by (cases res; cases "faults i Sent") auto
  then show ?thesis
  proof cases
    case sent
    let ?g = "\<lambda>r. r\<lparr>status := Sent, error := None\<rparr>"
    have A: "\<forall>r. dispatch_id (?g r) = dispatch_id r \<and> outcome_shown faults i res r (?g r)"
      by (simp add: outcome_shown_def accepted_def recorded_def sent)
    have B: "record_outcome faults i res st
                = map (\<lambda>r. if dispatch_id r = i then ?g r else r) st"
      using assms by (simp add: record_outcome_def update_by_id_def sent)
    show ?thesis by (rule exI [of _ ?g], rule conjI [OF A B])
  next
    case thrown
    from failed_branch [OF assms, where faults = faults and err = err] obtain g where
      g: "\<forall>r. dispatch_id (g r) = dispatch_id r \<and>
                  (case faults i Failed of
                     None \<Rightarrow> status (g r) = Failed \<and> error (g r) = Some (error_text err)
                   | Some e \<Rightarrow> g r = r)"
      and m: "mark_failed faults i err st = map (\<lambda>r. if dispatch_id r = i then g r else r) st"
      by (elim exE conjE) (rule that, assumption+)
    have A: "\<forall>r. dispatch_id (g r) = dispatch_id r \<and> outcome_shown faults i res r (g r)"
      using g by (simp add: outcome_shown_def accepted_def thrown)
    have B: "record_outcome faults i res st
                = map (\<lambda>r. if dispatch_id r = i then g r else r) st"
      using m by (simp add: record_outcome_def update_by_id_def thrown)
    show ?thesis by (rule exI [of _ g], rule conjI [OF A B])
  next
    case refused
    let ?err = "\<lparr>error_name = ''Error'',
               error_message = (if or_empty msg \<noteq> [] then or_empty msg else ''Falha no envio'')\<rparr>"
    from failed_branch [OF assms, where faults = faults and err = ?err] obtain g where
      g: "\<forall>r. dispatch_id (g r) = dispatch_id r \<and>
                  (case faults i Failed of
                     None \<Rightarrow> status (g r) = Failed \<and> error (g r) = Some (error_text ?err)
                   | Some e \<Rightarrow> g r = r)"
      and m: "mark_failed faults i ?err st = map (\<lambda>r. if dispatch_id r = i then g r else r) st"
      by (elim exE conjE) (rule that, assumption+)
    have t: "error_text ?err = (if or_empty msg \<noteq> [] then or_empty msg else ''Falha no envio'')"
      by (simp add: error_text_def)
    have A: "\<forall>r. dispatch_id (g r) = dispatch_id r \<and> outcome_shown faults i res r (g r)"
      using g unfolding t
      by (auto simp: outcome_shown_def accepted_def recorded_def refused split: option.splits)
    have B: "record_outcome faults i res st
                = map (\<lambda>r. if dispatch_id r = i then g r else r) st"
      using m by (simp add: record_outcome_def refused)
    show ?thesis by (rule exI [of _ g], rule conjI [OF A B])
  next
    case rejected
    from failed_branch [OF assms, where faults = faults and err = err] obtain g where
      g: "\<forall>r. dispatch_id (g r) = dispatch_id r \<and>
                  (case faults i Failed of
                     None \<Rightarrow> status (g r) = Failed \<and> error (g r) = Some (error_text err)
                   | Some e \<Rightarrow> g r = r)"
      and m: "mark_failed faults i err st = map (\<lambda>r. if dispatch_id r = i then g r else r) st"
      by (elim exE conjE) (rule that, assumption+)
    have A: "\<forall>r. dispatch_id (g r) = dispatch_id r \<and> outcome_shown faults i res r (g r)"
      using g
      by (auto simp: outcome_shown_def accepted_def recorded_def rejected split: option.splits)
    have B: "record_outcome faults i res st
                = map (\<lambda>r. if dispatch_id r = i then g r else r) st"
      using m by (simp add: record_outcome_def rejected)
    show ?thesis by (rule exI [of _ g], rule conjI [OF A B])
  qed
qed

lemma dispatches_send_one:
  "dispatches (send_one jp e cl dl d w) =
     record_outcome (env_update_fault e) (dispatch_id d)
       (env_gateway e (dispatch_id d) (request_of jp cl d)) (dispatches w)"
  by (simp add: send_one_def Let_def emit_def)

lemma send_batch_shown:
  assumes "distinct (map dispatch_id ds)"
    and "\<forall>d \<in> set ds. dispatch_id d \<in> set (map dispatch_id (dispatches w))"
  shows "map dispatch_id (dispatches (send_batch jp e cl dl ds w)) = map dispatch_id (dispatches w) \<and>
     (\<forall>k < length (dispatches w). dispatch_id (dispatches w ! k) \<notin> dispatch_id ` set ds \<longrightarrow>
          dispatches (send_batch jp e cl dl ds w) ! k = dispatches w ! k) \<and>
     (\<forall>d \<in> set ds. \<forall>k < length (dispatches w). dispatch_id (dispatches w ! k) = dispatch_id d \<longrightarrow>
          outcome_shown (env_update_fault e) (dispatch_id d)
            (env_gateway e (dispatch_id d) (request_of jp cl d))
            (dispatches w ! k) (dispatches (send_batch jp e cl dl ds w) ! k))"
  using assms
proof (induction ds arbitrary: w)
  case Nil
  then show ?case by simp
next
  case (Cons d ds)
  let ?st = "dispatches w"
  let ?w1 = "send_one jp e cl dl d w"
  let ?res = "env_gateway e (dispatch_id d) (request_of jp cl d)"
  let ?f = "dispatches (send_batch jp e cl dl ds ?w1)"
  from Cons.prems have here: "dispatch_id d \<in> set (map dispatch_id ?st)" by simp
  from record_outcome_shown [OF here, where faults = "env_update_fault e" and res = ?res]
  obtain g where g: "\<forall>r. dispatch_id (g r) = dispatch_id r \<and>
        outcome_shown (env_update_fault e) (dispatch_id d) ?res r (g r)"
    and st1: "dispatches ?w1 = map (\<lambda>r. if dispatch_id r = dispatch_id d then g r else r) ?st"
    by (auto simp: dispatches_send_one)
  have ids1: "map dispatch_id (dispatches ?w1) = map dispatch_id ?st"
    using g by (simp add: st1 comp_def cong: map_cong)
  have len1: "length (dispatches ?w1) = length ?st" by (simp add: st1)
  have at1: "dispatches ?w1 ! k = (if dispatch_id (?st ! k) = dispatch_id d then g (?st ! k) else ?st ! k)"
    if "k < length ?st" for k using that by (simp add: st1)
  have id1: "dispatch_id (dispatches ?w1 ! k) = dispatch_id (?st ! k)" if "k < length ?st" for k
    using at1 [OF that] g by simp
  from Cons.prems have d2: "distinct (map dispatch_id ds)"
    and notin: "dispatch_id d \<notin> dispatch_id ` set ds" by auto
  from Cons.prems ids1 have p2: "\<forall>d' \<in> set ds. dispatch_id d' \<in> set (map dispatch_id (dispatches ?w1))"
    by simp
  note IH = Cons.IH [OF d2 p2]
  from IH have ih1: "map dispatch_id ?f = map dispatch_id (dispatches ?w1)"
    and ih2: "\<forall>k < length (dispatches ?w1). dispatch_id (dispatches ?w1 ! k) \<notin> dispatch_id ` set ds \<longrightarrow>
          ?f ! k = dispatches ?w1 ! k"
    and ih3: "\<forall>d' \<in> set ds. \<forall>k < length (dispatches ?w1). dispatch_id (dispatches ?w1 ! k) = dispatch_id d' \<longrightarrow>
          outcome_shown (env_update_fault e) (dispatch_id d')
            (env_gateway e (dispatch_id d') (request_of jp cl d')) (dispatches ?w1 ! k) (?f ! k)"
    by blast+
  have a: "map dispatch_id ?f = map dispatch_id ?st" using ih1 ids1 by simp
  have b: "?f ! k = ?st ! k"
    if "k < length ?st" "dispatch_id (?st ! k) \<notin> dispatch_id ` set (d # ds)" for k
  proof -
    from that have "dispatch_id (dispatches ?w1 ! k) \<notin> dispatch_id ` set ds"
      using id1 by simp
    with ih2 that(1) len1 have "?f ! k = dispatches ?w1 ! k" by simp
    also have "\<dots> = ?st ! k" using at1 [OF that(1)] that(2) by simp
    finally show ?thesis .
  qed
  have c: "outcome_shown (env_update_fault e) (dispatch_id d')
            (env_gateway e (dispatch_id d') (request_of jp cl d')) (?st ! k) (?f ! k)"
    if "d' \<in> set (d # ds)" "k < length ?st" "dispatch_id (?st ! k) = dispatch_id d'" for d' k
  proof (cases "d' \<in> set ds")
    case True
    then have "dispatch_id d' \<in> dispatch_id ` set ds" by (rule imageI)
    with notin have "dispatch_id d' \<noteq> dispatch_id d" by metis
    with that(3) at1 [OF that(2)] have same: "dispatches ?w1 ! k = ?st ! k" by simp
    from ih3 True that(2,3) len1 id1 [OF that(2)]
    have "outcome_shown (env_update_fault e) (dispatch_id d')
            (env_gateway e (dispatch_id d') (request_of jp cl d')) (dispatches ?w1 ! k) (?f ! k)"
      by simp
    with same show ?thesis by simp
  next
    case False
    with that(1) have eq: "d' = d" by simp
    with that(3) notin id1 [OF that(2)]
    have "dispatch_id (dispatches ?w1 ! k) \<notin> dispatch_id ` set ds" by simp
    with ih2 that(2) len1 have "?f ! k = dispatches ?w1 ! k" by simp
    also have "\<dots> = g (?st ! k)" using at1 [OF that(2)] that(3) eq by simp
    finally show ?thesis using g eq by simp
  qed
  from a b c show ?case by simp
qed

lemma distinct_map_insort_key:
  "distinct (map f (insort_key k x xs)) = (f x \<notin> f ` set xs \<and> distinct (map f xs))"
  by (induction xs) (auto simp: set_insort_key)

lemma distinct_map_sort_key_other:
  "distinct (map f (sort_key k xs)) = distinct (map f xs)"
  by (induction xs) (auto simp: distinct_map_insort_key)

lemma dispatch_id_lock_row [simp]: "dispatch_id (lock_row cid now stamp f r) = dispatch_id r"
  by (simp add: lock_row_def)

lemma claim_result:
  assumes "claimNextContactBatch contacts cid now d1 d2 st = (Some cl, st')"
  shows "\<exists>first. first \<in> set st \<and> campaignId first = cid \<and> ready now first \<and>
           claim_batch cl = batch_of cid now d1 d2 first st \<and>
           st' = map (lock_row cid now (now + int d1 + int d2) first) st"
proof -
  from assms obtain f where f: "findFirst (\<lambda>r. campaignId r = cid \<and> ready now r) claim_order st = Some f"
    and l: "claim_locked contacts cid now d1 d2 f st = (Some cl, st')"
    by (auto simp: claimNextContactBatch_def split: option.splits)
  from findFirst_Some [OF f] have m: "f \<in> set st" "campaignId f = cid" "ready now f" by blast+
  from claim_locked_Some [OF m, of contacts d1 d2] l
  have "claim_batch cl = batch_of cid now d1 d2 f st"
    "st' = map (lock_row cid now (now + int d1 + int d2) f) st" by auto
  with m show ?thesis by blast
qed

lemma claim_batch_ids:
  assumes "claimNextContactBatch contacts cid now d1 d2 st = (Some cl, st')"
    and "distinct (map dispatch_id st)"
  shows "distinct (map dispatch_id (claim_batch cl)) \<and> distinct (map dispatch_id st') \<and>
         (\<forall>d \<in> set (claim_batch cl). dispatch_id d \<in> set (map dispatch_id st'))"
proof -
  from claim_result [OF assms(1)] obtain first where
    b: "claim_batch cl = batch_of cid now d1 d2 first st"
    and s: "st' = map (lock_row cid now (now + int d1 + int d2) first) st" by blast
  have ids: "map dispatch_id st' = map dispatch_id st" by (simp add: s comp_def)
  have "distinct (map dispatch_id (filter P st'))" for P
    using assms(2) ids by (simp add: distinct_map_filter)
  then have 1: "distinct (map dispatch_id (claim_batch cl))"
    by (simp add: b batch_of_def findMany_def distinct_map_sort_key_other s)
  have 2: "set (claim_batch cl) \<subseteq> set st'"
    by (auto simp: b batch_of_def findMany_def s)
  have 3: "distinct (map dispatch_id st')" using ids assms(2) by simp
  have 4: "\<forall>d \<in> set (claim_batch cl). dispatch_id d \<in> set (map dispatch_id st')"
    using 2 by auto
  from 1 3 4 show ?thesis by blast
qed

lemma claim_batch_rows:
  assumes "claimNextContactBatch contacts cid now d1 d2 st = (Some cl, st')"
  shows "set (claim_batch cl) \<subseteq> set st'"
proof -
  from claim_result [OF assms] obtain first where
    b: "claim_batch cl = batch_of cid now d1 d2 first st"
    and s: "st' = map (lock_row cid now (now + int d1 + int d2) first) st" by blast
  show ?thesis by (auto simp: b batch_of_def findMany_def s)
qed

subsection \<open>Rendering\<close>

lemmas render_defs =
  renderTemplate_def match_placeholder_def template_data_def lookup_or_empty_def
  object_prototype_text_def js_space_def js_word_def Let_def

lemma render_example:
  "renderTemplate (Some ''Hi {{nome}}, email {{email}}'') (template_data (Some ex_ana))
     = ''Hi Ana, email a@x.com''"
  by (simp add: render_defs ex_ana_def)

lemma render_missing_key:
  "renderTemplate (Some ''Oi {{ sobrenome }} da {{empresa}}!'') (template_data (Some ex_ana))
     = ''Oi  da !''"
  by (simp add: render_defs ex_ana_def)

lemma render_not_recursive:
  "renderTemplate (Some ''Hi {{nome}}'')
     (template_data (Some (ex_ana\<lparr>name := Some ''{{email}}''\<rparr>))) = ''Hi {{email}}''"
  by (simp add: render_defs ex_ana_def)

text \<open>The definitions that a run on concrete rows unfolds.\<close>

lemmas run_defs =
  loop_iteration_def claimNextContactBatch_def claim_locked_def findFirst_def findMany_def
  updateMany_def claim_order_def in_group_def ready_def Let_def emit_def send_one_def
  request_of_def build_request_def parsePayload_def renderTemplate_def match_placeholder_def
  template_data_def lookup_or_empty_def cleanNumber_def record_outcome_def update_by_id_def
  mark_failed_def error_text_def or_empty_def delayMs_def contactDelayMs_def
  processCampaign_def ex_row_def ex_env_def

subsection \<open>The claims\<close>

text \<open>
  C1, at the schedule where the code leaves the claim. Each statement of a
  claim transaction is one step on the table, and the statements of two
  attempts may alternate. The first attempt reads the clock at 0 and the second
  at 10; both find dispatch 1 first, in a table where dispatch 2 of the same
  contact is scheduled for 5. The first attempt updates at 12 and claims
  dispatch 1. The second updates at 14, after the first: its conditional update
  finds dispatch 2 pending and ready, so it does not affect zero rows, and the
  attempt returns a claim for the same group while dispatch 1 is still
  processing for the first.
\<close>

theorem second_claimant_claims_same_group:
  "findFirst (\<lambda>r. campaignId r = 7 \<and> ready 0 r) claim_order ex_race
     = Some (ex_row 1 7 ''5511'' 1 Pending None 0) \<and>
   findFirst (\<lambda>r. campaignId r = 7 \<and> ready 10 r) claim_order ex_race
     = Some (ex_row 1 7 ''5511'' 1 Pending None 0) \<and>
   claim_locked [] 7 0 6 6 (ex_row 1 7 ''5511'' 1 Pending None 0) ex_race
     = (Some \<lparr>claim_contact = ''5511'', claim_sessionName = ''s1'', claim_contactData = None,
              claim_batch = [ex_row 1 7 ''5511'' 1 Processing None 12]\<rparr>,
        [ex_row 1 7 ''5511'' 1 Processing None 12, ex_row 2 7 ''5511'' 2 Pending (Some 5) 0]) \<and>
   claim_locked [] 7 10 3 1 (ex_row 1 7 ''5511'' 1 Pending None 0)
       [ex_row 1 7 ''5511'' 1 Processing None 12, ex_row 2 7 ''5511'' 2 Pending (Some 5) 0]
     = (Some \<lparr>claim_contact = ''5511'', claim_sessionName = ''s1'', claim_contactData = None,
              claim_batch = [ex_row 2 7 ''5511'' 2 Processing (Some 5) 14]\<rparr>,
        [ex_row 1 7 ''5511'' 1 Processing None 12, ex_row 2 7 ''5511'' 2 Processing (Some 5) 14])"
  by (simp add: findFirst_def findMany_def claim_locked_def updateMany_def Let_def ex_race_def
      ex_row_def ready_def claim_order_def in_group_def)

text \<open>
  The same race when every row of the group that is ready at the second
  attempt's \<open>now\<close> is ready at the first attempt's. The attempts found their
  first rows \<open>fA\<close> and \<open>fB\<close> in the same group (campaignId, contact, sessionName).
  The attempt whose conditional update runs first returns a claim with the
  ready rows of the group, moved to processing. The conditional update of the
  other attempt, run on the table the first left, affects zero rows, so that
  attempt returns null and changes nothing; and a whole claim started on that
  table with the second \<open>now\<close> returns no claim for the group.
\<close>

theorem second_claimant_gets_nothing:
  assumes "fA \<in> set st" "campaignId fA = cid" "ready nowA fA"
    and "in_group cid fA fB"
    and "\<forall>r \<in> set st. in_group cid fA r \<and> ready nowB r \<longrightarrow> ready nowA r"
  shows "\<exists>c st1.
     claim_locked contacts cid nowA d1 d2 fA st = (Some c, st1) \<and>
     claim_contact c = contact fA \<and> claim_sessionName c = sessionName fA \<and>
     (\<forall>r \<in> set st. in_group cid fA r \<and> ready nowA r \<longrightarrow>
         r\<lparr>status := Processing, updatedAt := nowA + int d1 + int d2\<rparr> \<in> set (claim_batch c)) \<and>
     fst (updateMany (\<lambda>r. in_group cid fB r \<and> ready nowB r) data st1) = 0 \<and>
     claim_locked contacts cid nowB e1 e2 fB st1 = (None, st1) \<and>
     (\<forall>c2 st2. claimNextContactBatch contacts cid nowB e1 e2 st1 = (Some c2, st2) \<longrightarrow>
         \<not> (claim_contact c2 = contact fA \<and> claim_sessionName c2 = sessionName fA))"
proof -
  let ?st1 = "map (lock_row cid nowA (nowA + int d1 + int d2) fA) st"
  let ?c = "\<lparr>claim_contact = contact fA, claim_sessionName = sessionName fA,
            claim_contactData = find (\<lambda>c. phone c = contact fA) contacts,
            claim_batch = batch_of cid nowA d1 d2 fA st\<rparr>"
  have A: "claim_locked contacts cid nowA d1 d2 fA st = (Some ?c, ?st1)"
    using assms(1-3) by (rule claim_locked_Some)
  have none: "\<forall>r' \<in> set ?st1. \<not> (in_group cid fB r' \<and> ready nowB r')"
    using no_ready_after_lock [OF assms(5)] in_group_same [OF assms(4)] by simp
  have has: "\<forall>r \<in> set st. in_group cid fA r \<and> ready nowA r \<longrightarrow>
         r\<lparr>status := Processing, updatedAt := nowA + int d1 + int d2\<rparr> \<in> set (claim_batch ?c)"
    using batch_has_claimed by simp
  have upd: "updateMany (\<lambda>r. in_group cid fB r \<and> ready nowB r) data ?st1 = (0, ?st1)" for data
    using none by (rule updateMany_none)
  have B: "claim_locked contacts cid nowB e1 e2 fB ?st1 = (None, ?st1)"
    by (simp add: claim_locked_def Let_def upd)
  have later: "\<not> (claim_contact c2 = contact fA \<and> claim_sessionName c2 = sessionName fA)"
    if run: "claimNextContactBatch contacts cid nowB e1 e2 ?st1 = (Some c2, st2)" for c2 st2
  proof -
    from run obtain f where f: "findFirst (\<lambda>r. campaignId r = cid \<and> ready nowB r) claim_order ?st1 = Some f"
      and l: "claim_locked contacts cid nowB e1 e2 f ?st1 = (Some c2, st2)"
      by (auto simp: claimNextContactBatch_def split: option.splits)
    from findFirst_Some [OF f] have fm: "f \<in> set ?st1" and fc: "campaignId f = cid"
      and fr: "ready nowB f" by blast+
    from claim_locked_Some [OF fm fc fr, of contacts e1 e2] l
    have c2: "claim_contact c2 = contact f" "claim_sessionName c2 = sessionName f" by auto
    from no_ready_after_lock [OF assms(5)] fm fr have "\<not> in_group cid fA f" by blast
    with fc c2 show ?thesis by (simp add: in_group_def)
  qed
  have sel: "claim_contact ?c = contact fA \<and> claim_sessionName ?c = sessionName fA" by simp
  show ?thesis using A sel has upd B later by (intro exI [of _ ?c] exI [of _ ?st1]) simp
qed

theorem second_claimant_gets_nothing_witness:
  "\<exists>c st1.
     claim_locked [] 7 100 1 1 (ex_row 1 7 ''5511'' 1 Pending None 0)
         [ex_row 1 7 ''5511'' 1 Pending None 0, ex_row 2 7 ''5511'' 2 Pending None 0]
       = (Some c, st1) \<and>
     ex_row 1 7 ''5511'' 1 Processing None 102 \<in> set (claim_batch c) \<and>
     ex_row 2 7 ''5511'' 2 Processing None 102 \<in> set (claim_batch c) \<and>
     claim_locked [] 7 101 2 2 (ex_row 1 7 ''5511'' 1 Pending None 0) st1 = (None, st1)"
proof -
  let ?r1 = "ex_row 1 7 ''5511'' 1 Pending None 0"
  let ?r2 = "ex_row 2 7 ''5511'' 2 Pending None 0"
  have h: "?r1 \<in> set [?r1, ?r2]" "campaignId ?r1 = 7" "ready 100 ?r1" "in_group 7 ?r1 ?r1"
    by (simp_all add: ex_row_def ready_def in_group_def)
  have h5: "\<forall>r \<in> set [?r1, ?r2]. in_group 7 ?r1 r \<and> ready 101 r \<longrightarrow> ready 100 r"
    by (simp add: ex_row_def ready_def)
  have g: "in_group 7 ?r1 ?r2" "ready 100 ?r2"
    by (simp_all add: ex_row_def ready_def in_group_def)
  from second_claimant_gets_nothing [OF h h5, of "[]" 1 1 id 2 2]
  obtain c st1 where
    A: "claim_locked [] 7 100 1 1 ?r1 [?r1, ?r2] = (Some c, st1)"
    and D: "\<forall>r \<in> set [?r1, ?r2]. in_group 7 ?r1 r \<and> ready 100 r \<longrightarrow>
         r\<lparr>status := Processing, updatedAt := 100 + int 1 + int 1\<rparr> \<in> set (claim_batch c)"
    and B: "claim_locked [] 7 101 2 2 ?r1 st1 = (None, st1)"
    by blast
  have "?r1\<lparr>status := Processing, updatedAt := 100 + int 1 + int 1\<rparr> \<in> set (claim_batch c)"
    using D h(3,4) by simp
  then have b1: "ex_row 1 7 ''5511'' 1 Processing None 102 \<in> set (claim_batch c)"
    by (simp add: ex_row_def)
  have "?r2\<lparr>status := Processing, updatedAt := 100 + int 1 + int 1\<rparr> \<in> set (claim_batch c)"
    using D g by simp
  then have b2: "ex_row 2 7 ''5511'' 2 Processing None 102 \<in> set (claim_batch c)"
    by (simp add: ex_row_def)
  show ?thesis using A b1 b2 B by blast
qed

text \<open>
  C2. On a table that keeps the invariant of the data model (no two rows of a
  group share a messageOrder) and holds a ready dispatch of the campaign, the
  first query returns the ready row of the campaign that comes first in the
  order (contact, messageOrder, createdAt): no ready row of the campaign is
  below it. The claim returns a batch for the contact and session of that row.
  The batch holds every row of that group that was ready, now processing and
  stamped; all its rows are processing rows of the group; its messageOrder
  increases strictly; and the send loop posts its dispatches in the order of
  the batch.
\<close>

theorem claim_takes_first_in_order:
  assumes "x \<in> set st" "campaignId x = cid" "ready now x"
    and "messageOrder_unique st"
  shows "\<exists>first c st'.
     findFirst (\<lambda>r. campaignId r = cid \<and> ready now r) claim_order st = Some first \<and>
     first \<in> set st \<and> campaignId first = cid \<and> ready now first \<and>
     (\<forall>r \<in> set st. campaignId r = cid \<and> ready now r \<longrightarrow> claim_order first \<le> claim_order r) \<and>
     claimNextContactBatch contacts cid now d1 d2 st = (Some c, st') \<and>
     claim_contact c = contact first \<and> claim_sessionName c = sessionName first \<and>
     (\<forall>r \<in> set st. in_group cid first r \<and> ready now r \<longrightarrow>
         r\<lparr>status := Processing, updatedAt := now + int d1 + int d2\<rparr> \<in> set (claim_batch c)) \<and>
     (\<forall>b \<in> set (claim_batch c). in_group cid first b \<and> status b = Processing) \<and>
     sorted_wrt (<) (map messageOrder (claim_batch c)) \<and>
     posted (trace (send_batch json_parse e c ms (claim_batch c) w))
       = posted (trace w) @ map dispatch_id (claim_batch c)"
proof -
  let ?wh = "\<lambda>r. campaignId r = cid \<and> ready now r"
  from assms obtain first where f: "findFirst ?wh claim_order st = Some first"
    using findFirst_exists [of x st ?wh claim_order] by blast
  from findFirst_Some [OF f]
  have mem: "first \<in> set st" and cid: "campaignId first = cid" and rdy: "ready now first"
    and least: "\<forall>r \<in> set st. ?wh r \<longrightarrow> claim_order first \<le> claim_order r"
    by blast+
  let ?c = "\<lparr>claim_contact = contact first, claim_sessionName = sessionName first,
            claim_contactData = find (\<lambda>c. phone c = contact first) contacts,
            claim_batch = batch_of cid now d1 d2 first st\<rparr>"
  let ?st' = "map (lock_row cid now (now + int d1 + int d2) first) st"
  have run: "claimNextContactBatch contacts cid now d1 d2 st = (Some ?c, ?st')"
    using f claim_locked_Some [OF mem cid rdy] by (simp add: claimNextContactBatch_def)
  have has: "\<forall>r \<in> set st. in_group cid first r \<and> ready now r \<longrightarrow>
         r\<lparr>status := Processing, updatedAt := now + int d1 + int d2\<rparr> \<in> set (claim_batch ?c)"
    using batch_has_claimed by simp
  have rows: "\<forall>b \<in> set (claim_batch ?c). in_group cid first b \<and> status b = Processing"
    using batch_rows by simp
  have "distinct (map messageOrder (filter (in_group cid first) st))"
    using assms(4) mem cid by (auto simp: messageOrder_unique_def)
  then have strict: "sorted_wrt (<) (map messageOrder (claim_batch ?c))"
    using batch_strict by simp
  have post: "posted (trace (send_batch json_parse e ?c ms (claim_batch ?c) w))
       = posted (trace w) @ map dispatch_id (claim_batch ?c)"
    by (rule posted_send_batch)
  have sel: "claim_contact ?c = contact first \<and> claim_sessionName ?c = sessionName first"
    by simp
  show ?thesis
    using f mem cid rdy least run sel has rows strict post by blast
qed

theorem claim_takes_first_in_order_witness:
  "\<exists>c st'.
     findFirst (\<lambda>r. campaignId r = 1 \<and> ready 100 r) claim_order ex_table
       = Some (ex_row 3 1 ''5511'' 1 Pending (Some 50) 0) \<and>
     claimNextContactBatch [] 1 100 1 2 ex_table = (Some c, st') \<and>
     claim_contact c = ''5511'' \<and>
     ex_row 3 1 ''5511'' 1 Processing (Some 50) 103 \<in> set (claim_batch c) \<and>
     ex_row 2 1 ''5511'' 2 Processing None 103 \<in> set (claim_batch c) \<and>
     sorted_wrt (<) (map messageOrder (claim_batch c)) \<and>
     posted (trace (send_batch (\<lambda>raw. None) ex_env c 0 (claim_batch c)
                      \<lparr>dispatches = [], segmentContacts = [], trace = []\<rparr>))
       = map dispatch_id (claim_batch c)"
proof -
  let ?x = "ex_row 2 1 ''5511'' 2 Pending None 0"
  let ?f = "ex_row 3 1 ''5511'' 1 Pending (Some 50) 0"
  have h: "?x \<in> set ex_table" "campaignId ?x = 1" "ready 100 ?x"
    by (simp_all add: ex_table_def ex_row_def ready_def)
  have u: "messageOrder_unique ex_table"
    by (simp add: messageOrder_unique_def ex_table_def ex_row_def in_group_def)
  have ff: "findFirst (\<lambda>r. campaignId r = 1 \<and> ready 100 r) claim_order ex_table = Some ?f"
    by (simp add: findFirst_def findMany_def ex_table_def ex_row_def ready_def claim_order_def)
  have g: "in_group 1 ?f ?x" "in_group 1 ?f ?f"
    by (simp_all add: ex_row_def in_group_def)
  have f3: "?f \<in> set ex_table" "ready 100 ?f"
    by (simp_all add: ex_table_def ex_row_def ready_def)
  from claim_takes_first_in_order [OF h u, of "[]" 1 2 "\<lambda>raw. None" ex_env 0
      "\<lparr>dispatches = [], segmentContacts = [], trace = []\<rparr>"]
  obtain first c st' where
    A: "findFirst (\<lambda>r. campaignId r = 1 \<and> ready 100 r) claim_order ex_table = Some first"
    and B: "claimNextContactBatch [] 1 100 1 2 ex_table = (Some c, st')"
    and C: "claim_contact c = contact first"
    and D: "\<forall>r \<in> set ex_table. in_group 1 first r \<and> ready 100 r \<longrightarrow>
         r\<lparr>status := Processing, updatedAt := 100 + int 1 + int 2\<rparr> \<in> set (claim_batch c)"
    and E: "sorted_wrt (<) (map messageOrder (claim_batch c))"
    and F: "posted (trace (send_batch (\<lambda>raw. None) ex_env c 0 (claim_batch c)
                      \<lparr>dispatches = [], segmentContacts = [], trace = []\<rparr>))
       = posted (trace \<lparr>dispatches = [], segmentContacts = [], trace = []\<rparr>)
           @ map dispatch_id (claim_batch c)"
    by blast
  from A ff have first: "first = ?f" by simp
  have c1: "claim_contact c = ''5511''" using C first by (simp add: ex_row_def)
  have "?f\<lparr>status := Processing, updatedAt := 100 + int 1 + int 2\<rparr> \<in> set (claim_batch c)"
    using D f3 g(2) first by blast
  then have b3: "ex_row 3 1 ''5511'' 1 Processing (Some 50) 103 \<in> set (claim_batch c)"
    by (simp add: ex_row_def)
  have "?x\<lparr>status := Processing, updatedAt := 100 + int 1 + int 2\<rparr> \<in> set (claim_batch c)"
    using D h(1) h(3) g(1) first by blast
  then have b2: "ex_row 2 1 ''5511'' 2 Processing None 103 \<in> set (claim_batch c)"
    by (simp add: ex_row_def)
  have p: "posted (trace (send_batch (\<lambda>raw. None) ex_env c 0 (claim_batch c)
                      \<lparr>dispatches = [], segmentContacts = [], trace = []\<rparr>))
       = map dispatch_id (claim_batch c)"
    using F by simp
  show ?thesis using ff B c1 b3 b2 E p by blast
qed

text \<open>
  C3. One run of the reviver never lets an error out. When the store call
  succeeds, every row that was processing with updatedAt before now - ttl is
  pending afterwards (its other columns as they were) and every other row is
  unchanged; when the store call throws, the table is as it was.
\<close>

theorem revive_resets_stuck_rows:
  "\<exists>st'. reviveStuckProcessing fault ttl now st = Inr st' \<and> length st' = length st \<and>
     (fault \<noteq> None \<longrightarrow> st' = st) \<and>
     (fault = None \<longrightarrow>
        (\<forall>i < length st.
           (status (st ! i) = Processing \<and> updatedAt (st ! i) < now - ttl
              \<longrightarrow> st' ! i = (st ! i)\<lparr>status := Pending\<rparr>) \<and>
           (\<not> (status (st ! i) = Processing \<and> updatedAt (st ! i) < now - ttl)
              \<longrightarrow> st' ! i = st ! i)))"
  by (cases fault) (simp_all add: reviveStuckProcessing_def updateMany_def stuck_def)

theorem revive_resets_stuck_rows_witness:
  "\<exists>st'. reviveStuckProcessing None 1800000 2000000
            [ex_row 1 1 ''5511'' 1 Processing None 100000,
             ex_row 2 1 ''5511'' 2 Processing None 200000,
             ex_row 3 1 ''5512'' 1 Sent None 100000,
             ex_row 4 1 ''5513'' 1 Pending None 100000] = Inr st' \<and>
          length st' = 4 \<and>
          st' ! 0 = ex_row 1 1 ''5511'' 1 Pending None 100000 \<and>
          st' ! 1 = ex_row 2 1 ''5511'' 2 Processing None 200000 \<and>
          st' ! 2 = ex_row 3 1 ''5512'' 1 Sent None 100000 \<and>
          st' ! 3 = ex_row 4 1 ''5513'' 1 Pending None 100000"
proof -
  let ?st = "[ex_row 1 1 ''5511'' 1 Processing None 100000,
             ex_row 2 1 ''5511'' 2 Processing None 200000,
             ex_row 3 1 ''5512'' 1 Sent None 100000,
             ex_row 4 1 ''5513'' 1 Pending None 100000]"
  from revive_resets_stuck_rows [of None 1800000 2000000 ?st]
  obtain st' where r: "reviveStuckProcessing None 1800000 2000000 ?st = Inr st'"
    and l: "length st' = length ?st"
    and i: "\<forall>i < length ?st.
           (status (?st ! i) = Processing \<and> updatedAt (?st ! i) < 2000000 - 1800000
              \<longrightarrow> st' ! i = (?st ! i)\<lparr>status := Pending\<rparr>) \<and>
           (\<not> (status (?st ! i) = Processing \<and> updatedAt (?st ! i) < 2000000 - 1800000)
              \<longrightarrow> st' ! i = ?st ! i)"
    by blast
  have "st' ! 0 = ex_row 1 1 ''5511'' 1 Pending None 100000"
    using i [rule_format, of 0] by (simp add: ex_row_def)
  moreover have "st' ! 1 = ex_row 2 1 ''5511'' 2 Processing None 200000"
    using i [rule_format, of 1] by (simp add: ex_row_def)
  moreover have "st' ! 2 = ex_row 3 1 ''5512'' 1 Sent None 100000"
    using i [rule_format, of 2] by (simp add: ex_row_def)
  moreover have "st' ! 3 = ex_row 4 1 ''5513'' 1 Pending None 100000"
    using i [rule_format, of 3] by (simp add: ex_row_def)
  ultimately show ?thesis using r l by simp
qed

text \<open>
  C4. When the claim of a pass returns null, \<open>processCampaign\<close> returns in that
  pass, whatever passes could have followed, having only started the claim.
  Whenever \<open>processCampaign\<close> has returned, by whichever path, and also when its
  promise rejects, the handlers leave the running set without the campaign and
  with its other members; a tick that then finds the campaign first among its
  candidates, below the ceiling or without one, starts it again.
\<close>

theorem null_claim_ends_loop:
  assumes "campaign_loop jp cid es w = (Running, w1)"
    and "env_campaign e = Inr (Some c)" "campaign_status c \<noteq> ''paused''"
    and "env_claim_fault e = None"
    and "fst (claimNextContactBatch (segmentContacts w1) cid (env_now e) (env_d1 e) (env_d2 e)
                (dispatches w1)) = None"
  shows "processCampaign jp cid (Inr (Some c0)) (es @ e # later) w
           = (Returned, emit (Claim cid) w1) \<and>
     campaign_task jp cid (Inr (Some c0)) (es @ e # later) w running
           = (set_delete cid running, emit (Claim cid) w1) \<and>
     (\<forall>initial es' w' w2. processCampaign jp cid initial es' w' = (Returned, w2) \<longrightarrow>
          fst (campaign_task jp cid initial es' w' running) = set_delete cid running) \<and>
     settled rejection cid running = set_delete cid running \<and>
     cid \<notin> set (set_delete cid running) \<and>
     (\<forall>x \<in> set running. x \<noteq> cid \<longrightarrow> x \<in> set (set_delete cid running)) \<and>
     (limit \<le> 0 \<or> int (length (set_delete cid running)) < limit \<longrightarrow>
        cid \<in> set (snd (launch limit (cid # cs) (set_delete cid running))))"
proof -
  have it: "loop_iteration jp cid e w1 = (Return, emit (Claim cid) w1)"
    using assms(2-5) by (rule loop_iteration_null)
  have "campaign_loop jp cid (es @ e # later) w = (Returned, emit (Claim cid) w1)"
    by (simp add: campaign_loop_append assms(1) it)
  then have p: "processCampaign jp cid (Inr (Some c0)) (es @ e # later) w
           = (Returned, emit (Claim cid) w1)"
    by (simp add: processCampaign_def)
  note t = returned_task [OF p, of running]
  have a: "\<forall>initial es' w' w2. processCampaign jp cid initial es' w' = (Returned, w2) \<longrightarrow>
          fst (campaign_task jp cid initial es' w' running) = set_delete cid running"
    by (simp add: returned_task)
  have s: "settled rejection cid running = set_delete cid running"
    by (simp add: settled_def)
  have d: "cid \<notin> set (set_delete cid running)"
    "\<forall>x \<in> set running. x \<noteq> cid \<longrightarrow> x \<in> set (set_delete cid running)"
    by (simp_all add: set_delete_def)
  have l: "limit \<le> 0 \<or> int (length (set_delete cid running)) < limit \<longrightarrow>
        cid \<in> set (snd (launch limit (cid # cs) (set_delete cid running)))"
    using launch_first_free [OF d(1)] by blast
  from p t a s d l show ?thesis by blast
qed

theorem null_claim_ends_loop_witness:
  "processCampaign (\<lambda>raw. None) 1 (Inr (Some ex_active)) ([] @ ex_env # [ex_env, ex_env]) ex_done
     = (Returned, ex_done\<lparr>trace := [Claim 1]\<rparr>) \<and>
   campaign_task (\<lambda>raw. None) 1 (Inr (Some ex_active)) ([] @ ex_env # [ex_env, ex_env]) ex_done
       [1, 2] = ([2], ex_done\<lparr>trace := [Claim 1]\<rparr>) \<and>
   1 \<in> set (snd (launch 2 (1 # [2]) [2]))"
proof -
  have 1: "campaign_loop (\<lambda>raw. None) 1 [] ex_done = (Running, ex_done)" by simp
  have 2: "env_campaign ex_env = Inr (Some ex_active)" "campaign_status ex_active \<noteq> ''paused''"
    "env_claim_fault ex_env = None"
    by (simp_all add: ex_env_def ex_active_def)
  have 5: "fst (claimNextContactBatch (segmentContacts ex_done) 1 (env_now ex_env)
              (env_d1 ex_env) (env_d2 ex_env) (dispatches ex_done)) = None"
    by (simp add: run_defs ex_done_def)
  have 6: "set_delete 1 [1, 2] = [2]" by (simp add: set_delete_def)
  note t = null_claim_ends_loop [OF 1 2 5, of ex_active "[ex_env, ex_env]" "[1, 2]" None 2 "[2]"]
  from t have a: "processCampaign (\<lambda>raw. None) 1 (Inr (Some ex_active))
      ([] @ ex_env # [ex_env, ex_env]) ex_done = (Returned, emit (Claim 1) ex_done)" by blast
  from t have b: "campaign_task (\<lambda>raw. None) 1 (Inr (Some ex_active))
      ([] @ ex_env # [ex_env, ex_env]) ex_done [1, 2]
      = (set_delete 1 [1, 2], emit (Claim 1) ex_done)" by blast
  from t have "2 \<le> (0::int) \<or> int (length (set_delete 1 [1, 2])) < 2 \<longrightarrow>
        1 \<in> set (snd (launch 2 (1 # [2]) (set_delete 1 [1, 2])))" by blast
  then have c: "1 \<in> set (snd (launch 2 (1 # [2]) [2]))" by (simp add: 6)
  note b' = b [unfolded 6]
  from a b' c show ?thesis by (simp add: emit_def ex_done_def)
qed

text \<open>
  C5. A tick with a positive ceiling, on a running set that has no more members
  than the ceiling: every campaign it starts was discovered and was not in the
  running set; the running set afterwards is the old one followed by the
  campaigns started, and has no more members than the ceiling; nothing is
  started when the set is already at the ceiling; a discovered campaign that is
  not in the running set afterwards was passed over at a full set and is
  discovered again by every later tick that runs on the table this tick left;
  and with ceiling 1 and an empty running set the tick starts exactly the first
  campaign discovered.
\<close>

theorem tick_respects_ceiling:
  assumes "0 < limit" "distinct running" "int (length running) \<le> limit"
    and "orchestrate revive_fault None ttl limit now d st running = (st1, running', started)"
  shows "set started \<subseteq> set (availableCampaigns (now + int d) st1) \<and>
     (\<forall>c \<in> set started. c \<notin> set running) \<and>
     running' = running @ started \<and> distinct running' \<and>
     int (length running') \<le> limit \<and>
     (limit \<le> int (length running) \<longrightarrow> started = []) \<and>
     (\<forall>c \<in> set (availableCampaigns (now + int d) st1). c \<notin> set running' \<longrightarrow>
        int (length running') = limit \<and>
        (\<forall>fault' ttl' t t' st2.
           now + int d \<le> t' \<and> reviveStuckProcessing fault' ttl' t st1 = Inr st2
             \<longrightarrow> c \<in> set (availableCampaigns t' st2))) \<and>
     (limit = 1 \<and> running = [] \<longrightarrow> started = take 1 (availableCampaigns (now + int d) st1))"
proof -
  let ?cs = "availableCampaigns (now + int d) st1"
  from assms(4) have l: "launch limit ?cs running = (running', started)"
    by (auto simp: orchestrate_def Let_def split: prod.splits)
  then have r': "running' = fst (launch limit ?cs running)"
    and s: "started = snd (launch limit ?cs running)" by simp_all
  have 1: "set started \<subseteq> set ?cs" and 2: "\<forall>c \<in> set started. c \<notin> set running"
    using launch_started [of _ limit ?cs running] s by auto
  have 3: "running' = running @ started"
    using launch_running [of limit ?cs running] r' s by simp
  have 4: "distinct running'" using launch_distinct [OF assms(2)] r' by simp
  have 5: "int (length running') \<le> limit" using launch_bound [OF assms(1,3)] r' by simp
  have 6: "limit \<le> int (length running) \<longrightarrow> started = []"
    using launch_full [OF assms(1)] s by simp
  have 7: "\<forall>c \<in> set ?cs. c \<notin> set running' \<longrightarrow>
        int (length running') = limit \<and>
        (\<forall>fault' ttl' t t' st2.
           now + int d \<le> t' \<and> reviveStuckProcessing fault' ttl' t st1 = Inr st2
             \<longrightarrow> c \<in> set (availableCampaigns t' st2))"
  proof (intro ballI impI conjI allI)
    fix c assume c: "c \<in> set ?cs" "c \<notin> set running'"
    from launch_skipped [of c ?cs limit running] c r' have "limit \<le> int (length running')"
      by simp
    with 5 show "int (length running') = limit" by simp
    fix fault' ttl' t t' st2
    assume "now + int d \<le> t' \<and> reviveStuckProcessing fault' ttl' t st1 = Inr st2"
    with c(1) show "c \<in> set (availableCampaigns t' st2)"
      using still_available by blast
  qed
  have 8: "limit = 1 \<and> running = [] \<longrightarrow> started = take 1 ?cs"
  proof
    assume a: "limit = 1 \<and> running = []"
    show "started = take 1 ?cs"
    proof (cases ?cs)
      case Nil
      with l a show ?thesis by simp
    next
      case (Cons c cs)
      with l a launch_one [of c cs] show ?thesis by simp
    qed
  qed
  from 1 2 3 4 5 6 7 8 show ?thesis by blast
qed

theorem tick_respects_ceiling_witness:
  "orchestrate None None 1800000 1 1000 3 ex_two [] = (ex_two, [1], [1]) \<and>
   [1] = take 1 (availableCampaigns 1003 ex_two) \<and>
   2 \<in> set (availableCampaigns 1003 ex_two) \<and>
   reviveStuckProcessing None 1800000 4000 ex_two = Inr ex_two \<and>
   2 \<in> set (availableCampaigns 4003 ex_two)"
proof -
  have h: "(0::int) < 1" "distinct ([]::nat list)" "int (length ([]::nat list)) \<le> 1" by simp_all
  have o: "orchestrate None None 1800000 1 1000 3 ex_two [] = (ex_two, [1], [1])"
    by (simp add: orchestrate_def reviveStuckProcessing_def updateMany_def stuck_def
      availableCampaigns_def ready_def ex_two_def ex_row_def set_add_def)
  have a: "2 \<in> set (availableCampaigns (1000 + int 3) ex_two)"
    by (simp add: availableCampaigns_def ready_def ex_two_def ex_row_def)
  have r: "reviveStuckProcessing None 1800000 4000 ex_two = Inr ex_two"
    by (simp add: reviveStuckProcessing_def updateMany_def stuck_def ex_two_def ex_row_def)
  note t = tick_respects_ceiling [OF h o]
  from t have 8: "[1] = take 1 (availableCampaigns (1000 + int 3) ex_two)" by blast
  from t have "\<forall>c \<in> set (availableCampaigns (1000 + int 3) ex_two). c \<notin> set [1] \<longrightarrow>
        int (length [1::nat]) = 1 \<and>
        (\<forall>fault' ttl' t t' st2.
           1000 + int 3 \<le> t' \<and> reviveStuckProcessing fault' ttl' t ex_two = Inr st2
             \<longrightarrow> c \<in> set (availableCampaigns t' st2))" by blast
  with a have "\<forall>fault' ttl' t t' st2.
           1000 + int 3 \<le> (t'::int) \<and> reviveStuckProcessing fault' ttl' t ex_two = Inr st2
             \<longrightarrow> 2 \<in> set (availableCampaigns t' st2)" by fastforce
  then have "1000 + int 3 \<le> (4003::int) \<and> reviveStuckProcessing None 1800000 4000 ex_two = Inr ex_two
             \<longrightarrow> 2 \<in> set (availableCampaigns 4003 ex_two)" by blast
  with r have 7: "2 \<in> set (availableCampaigns 4003 ex_two)" by simp
  from o 8 a r 7 show ?thesis by simp
qed

text \<open>
  C6 (as amended). A pass that claims a batch, on a table whose ids are
  distinct: the pass posts every dispatch of the batch, in the order of the
  batch, whatever the gateway answers and whatever the store does, and goes on
  to the sleep between contacts and to the next pass. Afterwards the row of each
  dispatch of the batch shows the outcome of its own post. For a response with
  a truthy status it is sent with the error cleared, provided the update that
  records it succeeds; when that update throws, the row is failed with the text
  of the error thrown. For any other response it is failed with the message of
  the response (or \<open>Falha no envio\<close>), and for a rejected post failed with the
  text of the error. When the update to failed throws, the row stays
  processing as the claim left it.
\<close>

theorem outcome_recorded_per_message:
  assumes "env_campaign e = Inr (Some c)" "campaign_status c \<noteq> ''paused''"
    and "env_claim_fault e = None"
    and "claimNextContactBatch (segmentContacts w) cid (env_now e) (env_d1 e) (env_d2 e)
           (dispatches w) = (Some cl, st')"
    and "claim_batch cl \<noteq> []"
    and "distinct (map dispatch_id (dispatches w))"
  shows "\<exists>w'. loop_iteration jp cid e w = (Continue, w') \<and>
     posted (trace w') = posted (trace w) @ map dispatch_id (claim_batch cl) \<and>
     (\<exists>sends. trace w' = trace w @ Claim cid # sends
                 @ (if contactDelayMs c > 0 then [Sleep (contactDelayMs c)] else [])) \<and>
     (\<forall>d \<in> set (claim_batch cl).
        status d = Processing \<and>
        (\<exists>r \<in> set (dispatches w'). dispatch_id r = dispatch_id d) \<and>
        (\<forall>r \<in> set (dispatches w'). dispatch_id r = dispatch_id d \<longrightarrow>
           outcome_shown (env_update_fault e) (dispatch_id d)
             (env_gateway e (dispatch_id d) (request_of jp cl d)) d r))"
proof -
  let ?w0 = "(emit (Claim cid) w)\<lparr>dispatches := st'\<rparr>"
  let ?w2 = "send_batch jp e cl (delayMs c) (claim_batch cl) ?w0"
  let ?w' = "if contactDelayMs c > 0 then emit (Sleep (contactDelayMs c)) ?w2 else ?w2"
  have it: "loop_iteration jp cid e w = (Continue, ?w')"
    using loop_iteration_sends [OF assms(1-5), of jp] by (simp add: Let_def)
  have tr: "trace ?w' = trace w @ Claim cid #
       concat (map (\<lambda>d. Post (dispatch_id d) (request_of jp cl d)
                          # (if delayMs c > 0 then [Sleep (delayMs c)] else []))
                 (claim_batch cl))
       @ (if contactDelayMs c > 0 then [Sleep (contactDelayMs c)] else [])"
    using trace_loop_iteration_sends [OF assms(1-5), of jp] it by simp
  have po: "posted (trace ?w') = posted (trace w) @ map dispatch_id (claim_batch cl)"
    by (simp add: emit_def posted_append posted_send_batch)
  have dw: "dispatches ?w' = dispatches ?w2" by (simp add: emit_def)
  from claim_batch_ids [OF assms(4,6)]
  have di: "distinct (map dispatch_id (claim_batch cl))"
    and ds: "distinct (map dispatch_id st')"
    and mem: "\<forall>d \<in> set (claim_batch cl). dispatch_id d \<in> set (map dispatch_id (dispatches ?w0))"
    by simp_all
  have sub: "set (claim_batch cl) \<subseteq> set st'" using assms(4) by (rule claim_batch_rows)
  have inj: "inj_on dispatch_id (set st')" using ds by (simp add: distinct_map)
  from claim_result [OF assms(4)] obtain first where
    "claim_batch cl = batch_of cid (env_now e) (env_d1 e) (env_d2 e) first (dispatches w)" by blast
  then have proc: "\<forall>d \<in> set (claim_batch cl). status d = Processing"
    using batch_rows by simp
  from send_batch_shown [OF di mem, of jp e cl "delayMs c"]
  have ids: "map dispatch_id (dispatches ?w2) = map dispatch_id st'"
    and rec: "\<forall>d \<in> set (claim_batch cl). \<forall>k < length st'.
          dispatch_id (st' ! k) = dispatch_id d \<longrightarrow>
          outcome_shown (env_update_fault e) (dispatch_id d)
            (env_gateway e (dispatch_id d) (request_of jp cl d)) (st' ! k) (dispatches ?w2 ! k)"
    by simp_all
  have len: "length (dispatches ?w2) = length st'" using ids by (metis length_map)
  have rows: "status d = Processing \<and>
        (\<exists>r \<in> set (dispatches ?w'). dispatch_id r = dispatch_id d) \<and>
        (\<forall>r \<in> set (dispatches ?w'). dispatch_id r = dispatch_id d \<longrightarrow>
           outcome_shown (env_update_fault e) (dispatch_id d)
             (env_gateway e (dispatch_id d) (request_of jp cl d)) d r)"
    if d: "d \<in> set (claim_batch cl)" for d
  proof (intro conjI)
    show "status d = Processing" using proc d by simp
    from mem d have "dispatch_id d \<in> set (map dispatch_id (dispatches ?w2))"
      using ids by simp
    then show "\<exists>r \<in> set (dispatches ?w'). dispatch_id r = dispatch_id d"
      unfolding dw by auto
    show "\<forall>r \<in> set (dispatches ?w'). dispatch_id r = dispatch_id d \<longrightarrow>
           outcome_shown (env_update_fault e) (dispatch_id d)
             (env_gateway e (dispatch_id d) (request_of jp cl d)) d r"
      unfolding dw
    proof (intro ballI impI)
      fix r assume r: "r \<in> set (dispatches ?w2)" "dispatch_id r = dispatch_id d"
      then obtain k where k: "k < length (dispatches ?w2)" "dispatches ?w2 ! k = r"
        by (auto simp: in_set_conv_nth)
      have "dispatch_id (st' ! k) = dispatch_id (dispatches ?w2 ! k)"
        using k(1) len by (metis ids nth_map)
      with k r(2) have e1: "dispatch_id (st' ! k) = dispatch_id d" by simp
      have "st' ! k \<in> set st'" using k(1) len by simp
      with inj e1 sub d have "st' ! k = d" by (auto dest: inj_onD)
      with rec d k(1) len e1 have "outcome_shown (env_update_fault e) (dispatch_id d)
          (env_gateway e (dispatch_id d) (request_of jp cl d)) d (dispatches ?w2 ! k)" by auto
      with k(2) show "outcome_shown (env_update_fault e) (dispatch_id d)
          (env_gateway e (dispatch_id d) (request_of jp cl d)) d r" by simp
    qed
  qed
  have ex: "\<exists>sends. trace ?w' = trace w @ Claim cid # sends
                 @ (if contactDelayMs c > 0 then [Sleep (contactDelayMs c)] else [])"
    using tr by blast
  from it po ex rows show ?thesis by (intro exI [of _ ?w']) blast
qed

theorem outcome_recorded_per_message_witness:
  "\<exists>w'. loop_iteration (\<lambda>raw. None) 1 ex_env ex_pair = (Continue, w') \<and>
         posted (trace w') = [3, 4] \<and>
         dispatches w' = [ex_row 3 1 ''5511'' 1 Sent None 103,
                          (ex_row 4 1 ''5511'' 2 Failed None 103)\<lparr>error := Some ''recusado''\<rparr>]"
proof -
  let ?cl = "\<lparr>claim_contact = ''5511'', claim_sessionName = ''s1'', claim_contactData = None,
              claim_batch = [ex_row 3 1 ''5511'' 1 Processing None 103,
                             ex_row 4 1 ''5511'' 2 Processing None 103]\<rparr>"
  have 1: "env_campaign ex_env = Inr (Some ex_active)" "campaign_status ex_active \<noteq> ''paused''"
    "env_claim_fault ex_env = None"
    by (simp_all add: ex_env_def ex_active_def)
  have 4: "claimNextContactBatch (segmentContacts ex_pair) 1 (env_now ex_env) (env_d1 ex_env)
             (env_d2 ex_env) (dispatches ex_pair)
           = (Some ?cl, [ex_row 3 1 ''5511'' 1 Processing None 103,
                         ex_row 4 1 ''5511'' 2 Processing None 103])"
    by (simp add: run_defs ex_pair_def)
  have 5: "claim_batch ?cl \<noteq> []" by simp
  have 6: "distinct (map dispatch_id (dispatches ex_pair))"
    by (simp add: ex_pair_def ex_row_def)
  from outcome_recorded_per_message [OF 1 4 5 6, of "\<lambda>raw. None"]
  obtain w' where it: "loop_iteration (\<lambda>raw. None) 1 ex_env ex_pair = (Continue, w')"
    and po: "posted (trace w') = posted (trace ex_pair) @ map dispatch_id (claim_batch ?cl)"
    and sh: "\<forall>d \<in> set (claim_batch ?cl).
        status d = Processing \<and>
        (\<exists>r \<in> set (dispatches w'). dispatch_id r = dispatch_id d) \<and>
        (\<forall>r \<in> set (dispatches w'). dispatch_id r = dispatch_id d \<longrightarrow>
           outcome_shown (env_update_fault ex_env) (dispatch_id d)
             (env_gateway ex_env (dispatch_id d) (request_of (\<lambda>raw. None) ?cl d)) d r)"
    by (elim exE conjE) (rule that, assumption+)
  have "loop_iteration (\<lambda>raw. None) 1 ex_env ex_pair =
     (Continue,
      \<lparr>dispatches = [ex_row 3 1 ''5511'' 1 Sent None 103,
                      (ex_row 4 1 ''5511'' 2 Failed None 103)\<lparr>error := Some ''recusado''\<rparr>],
       segmentContacts = [],
       trace = [Claim 1, Post 3 (SendMessage ''s1'' ''5511'' ''oi''), Sleep 30000,
                Post 4 (SendMessage ''s1'' ''5511'' ''oi''), Sleep 30000]\<rparr>)"
    by (simp add: run_defs ex_pair_def)
  with it have "dispatches w' = [ex_row 3 1 ''5511'' 1 Sent None 103,
                      (ex_row 4 1 ''5511'' 2 Failed None 103)\<lparr>error := Some ''recusado''\<rparr>]"
    by auto
  moreover from po have "posted (trace w') = [3, 4]" by (simp add: ex_pair_def ex_row_def)
  ultimately show ?thesis using it by blast
qed

text \<open>
  Against C6 as stated. The gateway accepts dispatch 3, the update that would
  record it as sent throws, and the \<open>catch\<close> records the dispatch as failed
  with the message of the store error.
\<close>

theorem accepted_message_recorded_failed:
  "env_gateway ex_faulty 3 (SendMessage ''s1'' ''5511'' ''oi'') = Response True (Some ''recusado'') \<and>
   loop_iteration (\<lambda>raw. None) 1 ex_faulty ex_world =
     (Continue,
      \<lparr>dispatches = [(ex_row 3 1 ''5511'' 1 Failed None 103)\<lparr>error := Some ''timeout''\<rparr>],
       segmentContacts = [],
       trace = [Claim 1, Post 3 (SendMessage ''s1'' ''5511'' ''oi''), Sleep 30000]\<rparr>)"
  by (simp add: run_defs ex_faulty_def ex_world_def)

text \<open>
  C7. When the table holds no ready dispatch of the campaign (no pending row
  whose scheduledAt is null or not after now), the claim returns null and
  leaves the table as it was.
\<close>

theorem claim_no_ready_is_null:
  assumes "\<forall>r \<in> set st. \<not> (campaignId r = cid \<and> ready now r)"
  shows "claimNextContactBatch contacts cid now d1 d2 st = (None, st)"
proof -
  have "findFirst (\<lambda>r. campaignId r = cid \<and> ready now r) claim_order st = None"
    using assms by (simp add: findFirst_None_iff)
  then show ?thesis by (simp add: claimNextContactBatch_def)
qed

theorem claim_no_ready_is_null_witness:
  "claimNextContactBatch [] 1 100 0 0
     [ex_row 1 1 ''5511'' 1 Pending (Some 200) 0, ex_row 2 2 ''5511'' 1 Pending None 0,
      ex_row 3 1 ''5511'' 2 Sent None 0]
   = (None,
      [ex_row 1 1 ''5511'' 1 Pending (Some 200) 0, ex_row 2 2 ''5511'' 1 Pending None 0,
       ex_row 3 1 ''5511'' 2 Sent None 0])"
  by (rule claim_no_ready_is_null) (simp add: ready_def ex_row_def)

text \<open>
  C8, at the input where the code leaves the claim. The key \<open>constructor\<close> names
  no field of the profile, yet the placeholder is not replaced by the empty
  string: the lookup finds the member that the object inherits.
\<close>

theorem render_inherited_key:
  "renderTemplate (Some ''Oi {{constructor}}'') (template_data (Some ex_ana))
     = ''Oi function Object() { [native code] }''"
  by (simp add: render_defs ex_ana_def)

text \<open>
  C9 (as amended). While every read of the campaign row shows the status
  \<open>paused\<close>, the loop does not return, starts no claim, posts nothing and
  leaves the table alone: each pass only sleeps 10000 ms and reads the row
  again. The first pass that reads any other status starts a claim.
\<close>

theorem paused_campaign_waits:
  assumes "\<forall>e \<in> set es. \<exists>c. env_campaign e = Inr (Some c) \<and> campaign_status c = ''paused''"
  shows "processCampaign jp cid (Inr (Some c0)) es w =
           (Running, w\<lparr>trace := trace w @ replicate (length es) (Sleep 10000)\<rparr>) \<and>
     (\<forall>e' c'. env_campaign e' = Inr (Some c') \<and> campaign_status c' \<noteq> ''paused'' \<longrightarrow>
        (\<exists>rest. trace (snd (processCampaign jp cid (Inr (Some c0)) (es @ [e']) w)) =
           trace w @ replicate (length es) (Sleep 10000) @ Claim cid # rest))"
proof -
  let ?w1 = "w\<lparr>trace := trace w @ replicate (length es) (Sleep 10000)\<rparr>"
  have p: "campaign_loop jp cid es w = (Running, ?w1)"
    using assms by (rule paused_loop)
  have "\<exists>rest. trace (snd (processCampaign jp cid (Inr (Some c0)) (es @ [e']) w)) =
           trace w @ replicate (length es) (Sleep 10000) @ Claim cid # rest"
    if "env_campaign e' = Inr (Some c') \<and> campaign_status c' \<noteq> ''paused''" for e' c'
  proof -
    from that loop_iteration_claims [of e' c' jp cid ?w1]
    obtain rest where r: "trace (snd (loop_iteration jp cid e' ?w1)) = trace ?w1 @ Claim cid # rest"
      by blast
    have "snd (campaign_loop jp cid (es @ [e']) w) = snd (loop_iteration jp cid e' ?w1)"
      by (simp add: campaign_loop_append p split: prod.splits step.splits)
    with r show ?thesis by (simp add: processCampaign_def)
  qed
  then have q: "\<forall>e' c'. env_campaign e' = Inr (Some c') \<and> campaign_status c' \<noteq> ''paused'' \<longrightarrow>
        (\<exists>rest. trace (snd (processCampaign jp cid (Inr (Some c0)) (es @ [e']) w)) =
           trace w @ replicate (length es) (Sleep 10000) @ Claim cid # rest)"
    by blast
  have "processCampaign jp cid (Inr (Some c0)) es w = (Running, ?w1)"
    using p by (simp add: processCampaign_def)
  with q show ?thesis by blast
qed

theorem paused_campaign_waits_witness:
  "processCampaign (\<lambda>raw. None) 1 (Inr (Some ex_active)) [ex_paused, ex_paused] ex_world
     = (Running, ex_world\<lparr>trace := [Sleep 10000, Sleep 10000]\<rparr>) \<and>
   (\<exists>rest. trace (snd (processCampaign (\<lambda>raw. None) 1 (Inr (Some ex_active))
                           [ex_paused, ex_paused, ex_env] ex_world))
      = [Sleep 10000, Sleep 10000, Claim 1] @ rest)"
proof -
  have h: "\<forall>e \<in> set [ex_paused, ex_paused].
             \<exists>c. env_campaign e = Inr (Some c) \<and> campaign_status c = ''paused''"
    by (simp add: ex_paused_def)
  have a: "env_campaign ex_env = Inr (Some \<lparr>delay = None, contactDelay = None,
             campaign_status = ''active''\<rparr>)
           \<and> campaign_status \<lparr>delay = None, contactDelay = None,
             campaign_status = ''active''\<rparr> \<noteq> ''paused''"
    by (simp add: ex_env_def)
  from paused_campaign_waits [OF h, of "\<lambda>raw. None" 1 ex_active ex_world] a
  show ?thesis by (auto simp: ex_world_def)
qed

text \<open>
  Against C9 as stated. A campaign whose status is \<open>finished\<close>, neither active
  nor paused: the pass claims the ready dispatch and posts it.
\<close>

theorem finished_campaign_sends:
  "processCampaign (\<lambda>raw. None) 1
       (Inr (Some \<lparr>delay = Some 0, contactDelay = None, campaign_status = ''finished''\<rparr>))
       [ex_finished] ex_world
     = (Running,
        \<lparr>dispatches = [ex_row 3 1 ''5511'' 1 Sent None 103], segmentContacts = [],
         trace = [Claim 1, Post 3 (SendMessage ''s1'' ''5511'' ''oi'')]\<rparr>)"
  by (simp add: run_defs ex_finished_def ex_world_def)

text \<open>
  C10. In any pass of the loop that claims a batch, whatever rows earlier passes
  read: the pass returns to the top of the loop; after the claim it posts each
  dispatch of the batch and, when \<open>delayMs\<close> of the row just read is positive,
  sleeps that long after each post; then it sleeps \<open>contactDelayMs\<close> of that row
  when that is positive. With a null delay every post is followed by a sleep of
  30000 ms, and with a null contactDelay there is no sleep after the batch.
\<close>

theorem default_delays:
  assumes "campaign_loop jp cid es w = (Running, w1)"
    and "env_campaign e = Inr (Some c)" "campaign_status c \<noteq> ''paused''"
    and "env_claim_fault e = None"
    and "claimNextContactBatch (segmentContacts w1) cid (env_now e) (env_d1 e) (env_d2 e)
           (dispatches w1) = (Some cl, st')"
    and "claim_batch cl \<noteq> []"
  shows "\<exists>w2 sends pause.
     campaign_loop jp cid (es @ [e]) w = (Running, w2) \<and>
     trace w2 = trace w1 @ Claim cid # sends @ pause \<and>
     sends = concat (map (\<lambda>d. Post (dispatch_id d) (request_of jp cl d)
                               # (if delayMs c > 0 then [Sleep (delayMs c)] else []))
                      (claim_batch cl)) \<and>
     pause = (if contactDelayMs c > 0 then [Sleep (contactDelayMs c)] else []) \<and>
     (delay c = None \<longrightarrow>
        sends = concat (map (\<lambda>d. [Post (dispatch_id d) (request_of jp cl d), Sleep 30000])
                         (claim_batch cl))) \<and>
     (contactDelay c = None \<longrightarrow> pause = [])"
proof -
  let ?it = "loop_iteration jp cid e w1"
  have "fst ?it = Continue"
    by (simp add: loop_iteration_sends [OF assms(2-6)])
  then obtain w2 where it: "?it = (Continue, w2)" by (cases ?it) simp
  have "campaign_loop jp cid [e] w1 = (Running, w2)"
    by (simp add: it)
  with it have l: "campaign_loop jp cid (es @ [e]) w = (Running, snd ?it)"
    by (simp add: campaign_loop_append assms(1))
  have t: "trace (snd ?it) =
     trace w1 @ Claim cid #
       concat (map (\<lambda>d. Post (dispatch_id d) (request_of jp cl d)
                          # (if delayMs c > 0 then [Sleep (delayMs c)] else []))
                 (claim_batch cl))
       @ (if contactDelayMs c > 0 then [Sleep (contactDelayMs c)] else [])"
    by (rule trace_loop_iteration_sends [OF assms(2-6)])
  have d: "delay c = None \<longrightarrow>
        concat (map (\<lambda>d. Post (dispatch_id d) (request_of jp cl d)
                          # (if delayMs c > 0 then [Sleep (delayMs c)] else []))
                 (claim_batch cl))
        = concat (map (\<lambda>d. [Post (dispatch_id d) (request_of jp cl d), Sleep 30000])
                         (claim_batch cl))"
    by (simp add: delayMs_def)
  have p: "contactDelay c = None \<longrightarrow>
        (if contactDelayMs c > 0 then [Sleep (contactDelayMs c)] else []) = []"
    by (simp add: contactDelayMs_def)
  from l t d p show ?thesis
    by (intro exI [of _ "snd ?it"]
          exI [of _ "concat (map (\<lambda>d. Post (dispatch_id d) (request_of jp cl d)
                          # (if delayMs c > 0 then [Sleep (delayMs c)] else []))
                 (claim_batch cl))"]
          exI [of _ "if contactDelayMs c > 0 then [Sleep (contactDelayMs c)] else []"])
       simp
qed

theorem default_delays_witness:
  "campaign_loop (\<lambda>raw. None) 1 ([ex_paused] @ [ex_env]) ex_world
     = (Running,
        \<lparr>dispatches = [ex_row 3 1 ''5511'' 1 Sent None 103], segmentContacts = [],
         trace = [Sleep 10000, Claim 1, Post 3 (SendMessage ''s1'' ''5511'' ''oi''),
                  Sleep 30000]\<rparr>)"
proof -
  let ?w1 = "ex_world\<lparr>trace := [Sleep 10000]\<rparr>"
  let ?cl = "\<lparr>claim_contact = ''5511'', claim_sessionName = ''s1'', claim_contactData = None,
              claim_batch = [ex_row 3 1 ''5511'' 1 Processing None 103]\<rparr>"
  have 1: "campaign_loop (\<lambda>raw. None) 1 [ex_paused] ex_world = (Running, ?w1)"
    by (simp add: loop_iteration_def ex_paused_def emit_def ex_world_def)
  have 2: "env_campaign ex_env = Inr (Some ex_active)" "campaign_status ex_active \<noteq> ''paused''"
    "env_claim_fault ex_env = None"
    by (simp_all add: ex_env_def ex_active_def)
  have 5: "claimNextContactBatch (segmentContacts ?w1) 1 (env_now ex_env) (env_d1 ex_env)
             (env_d2 ex_env) (dispatches ?w1)
           = (Some ?cl, [ex_row 3 1 ''5511'' 1 Processing None 103])"
    by (simp add: run_defs ex_world_def)
  have 6: "claim_batch ?cl \<noteq> []" by simp
  from default_delays [OF 1 2 5 6]
  obtain w2 sends pause where
    l: "campaign_loop (\<lambda>raw. None) 1 ([ex_paused] @ [ex_env]) ex_world = (Running, w2)"
    and t: "trace w2 = trace ?w1 @ Claim 1 # sends @ pause"
    and s: "delay ex_active = None \<longrightarrow>
        sends = concat (map (\<lambda>d. [Post (dispatch_id d) (request_of (\<lambda>raw. None) ?cl d), Sleep 30000])
                         (claim_batch ?cl))"
    and p: "contactDelay ex_active = None \<longrightarrow> pause = []"
    by (elim exE conjE) (rule that, assumption+)
  from s p have "sends = [Post 3 (SendMessage ''s1'' ''5511'' ''oi''), Sleep 30000]" "pause = []"
    by (simp_all add: ex_active_def run_defs)
  with t have tr: "trace w2 = [Sleep 10000, Claim 1, Post 3 (SendMessage ''s1'' ''5511'' ''oi''),
                  Sleep 30000]" by simp
  have "campaign_loop (\<lambda>raw. None) 1 ([ex_paused] @ [ex_env]) ex_world
     = (Running,
        \<lparr>dispatches = [ex_row 3 1 ''5511'' 1 Sent None 103], segmentContacts = [],
         trace = trace w2\<rparr>)"
    using l by (auto simp: run_defs ex_paused_def ex_world_def)
  with tr show ?thesis by simp
qed

end
